theory Spec2Isabelle
  imports Complex_Main "HOL-Library.Word"
begin

section \<open>Errors\<close>

text \<open>
  The exceptions of the library as values: \<open>std::invalid_argument\<close>,
  \<open>std::out_of_range\<close> and \<open>std::runtime_error\<close>.  \<open>OutOfBounds\<close> stands for
  an unchecked read outside a vector (\<open>vec[-1]\<close>, \<open>_dimensions[i]\<close> past the end), which
  C++ leaves undefined.
\<close>

datatype error = InvalidArgument | OutOfRange | RuntimeError | OutOfBounds

section \<open>HilbertSpace\<close>

text \<open>
  The fields \<open>_rank\<close>, \<open>_dimensions\<close> and \<open>_dim\<close>.  The header that declares them is
  not among the sources; \<open>_dimensions\<close> is a \<open>std::vector<uint>\<close> (the getter
  \<open>dimensions()\<close> returns it), \<open>_rank\<close> and \<open>_dim\<close> are taken as \<open>int\<close>, the type
  their getters return.  A \<open>uint\<close> and the bits of \<open>_dim\<close> are 32-bit words:
  \<open>_dim *= dimensions[i]\<close> multiplies modulo \<open>2 ^ 32\<close>, and \<open>totalDimension()\<close>
  reads the result as a signed \<open>int\<close>.  The rank is the size of a vector and is kept
  as an unbounded integer.
\<close>

record HilbertSpace =
  rank :: int
  dimensions :: "32 word list"
  totalDim :: "32 word"

definition totalDimension :: "HilbertSpace \<Rightarrow> int" where
  "totalDimension s = sint (totalDim s)"

definition dimension :: "HilbertSpace \<Rightarrow> int \<Rightarrow> error + int" where
  "dimension s index =
     (if index < 0 then Inl OutOfRange
      else if index \<ge> rank s then Inl OutOfRange
      else Inr (sint (dimensions s ! nat index)))"

subsection \<open>Constructors\<close>

definition HilbertSpace_default :: HilbertSpace where
  "HilbertSpace_default = \<lparr>rank = 0, dimensions = [], totalDim = 0\<rparr>"

definition HilbertSpace_dim :: "32 word \<Rightarrow> error + HilbertSpace" where
  "HilbertSpace_dim d =
     (if d = 0 then Inl InvalidArgument
      else Inr \<lparr>rank = 1, dimensions = [d], totalDim = d\<rparr>)"

text \<open>
  The loop of the list constructor: it walks the list from the front, throws at the
  first zero and multiplies \<open>_dim\<close> (started at 1) otherwise.
\<close>

fun dims_loop :: "32 word list \<Rightarrow> 32 word \<Rightarrow> error + 32 word" where
  "dims_loop [] acc = Inr acc"
| "dims_loop (d # ds) acc =
     (if d = 0 then Inl InvalidArgument else dims_loop ds (acc * d))"

definition HilbertSpace_dims :: "32 word list \<Rightarrow> error + HilbertSpace" where
  "HilbertSpace_dims ds =
     (case dims_loop ds 1 of
        Inl e \<Rightarrow> Inl e
      | Inr p \<Rightarrow> Inr \<lparr>rank = int (length ds), dimensions = ds, totalDim = p\<rparr>)"

subsection \<open>tensorWith and tensor\<close>

text \<open>
  \<open>tensorWith\<close> changes the object it is called on while it reads its argument through
  a reference, and nothing keeps the two apart: the objects live in a store, and the
  method takes their addresses.  The loop reads \<open>second._rank\<close> and
  \<open>second._dimensions[i]\<close> again at every step.
\<close>

type_synonym addr = nat
type_synonym heap = "addr \<Rightarrow> HilbertSpace"

function tensorWith_loop :: "addr \<Rightarrow> addr \<Rightarrow> nat \<Rightarrow> heap \<Rightarrow> error + heap" where
  "tensorWith_loop this second i h =
     (if int i < rank (h second) then
        (if i < length (dimensions (h second)) then
           tensorWith_loop this second (Suc i)
             (h(this := (h this)\<lparr>dimensions :=
                  dimensions (h this) @ [dimensions (h second) ! i]\<rparr>))
         else Inl OutOfBounds)
      else Inr h)"
  by pat_completeness auto
termination
  by (relation "measure (\<lambda>(this, second, i, h). nat (rank (h second) - int i))") auto

definition tensorWith :: "addr \<Rightarrow> addr \<Rightarrow> heap \<Rightarrow> error + heap" where
  "tensorWith this second h =
     (let h1 = h(this := (h this)\<lparr>rank := rank (h this) + rank (h second)\<rparr>) in
      case tensorWith_loop this second 0 h1 of
        Inl e \<Rightarrow> Inl e
      | Inr h2 \<Rightarrow>
          Inr (h2(this := (h2 this)\<lparr>totalDim := totalDim (h2 this) * totalDim (h2 second)\<rparr>)))"

text \<open>
  The static \<open>tensor\<close>: the local \<open>space\<close> is a copy of \<open>first\<close> at an address of
  its own, \<open>tensorWith\<close> runs on the copy, and the copy is returned (the object at
  \<open>space\<close> in the final store).
\<close>

definition tensor :: "addr \<Rightarrow> addr \<Rightarrow> addr \<Rightarrow> heap \<Rightarrow> error + heap" where
  "tensor space first second h = tensorWith space second (h(space := h first))"

subsection \<open>Index and multi-index\<close>

text \<open>
  \<open>getVector\<close>: the loop runs \<open>i\<close> from \<open>_rank - 1\<close> down to 0.  \<open>index % _dimensions[i]\<close>
  is taken after the conversion of \<open>index\<close> to \<open>uint\<close> (the remainder of words), and
  \<open>(int) floor(1.0 * index / _dimensions[i])\<close> is the floor of the quotient of the signed
  index by the dimension; for 32-bit operands the quotient in doubles has the floor of
  the exact quotient.  The entries of the result hold integers, and the vector is
  modelled as a list of them.  The reads \<open>_dimensions[i]\<close> lie inside the vector and
  the divisor is not zero in every space the constructors and \<open>tensorWith\<close> build.
\<close>

fun getVector_loop :: "32 word list \<Rightarrow> nat \<Rightarrow> 32 word \<Rightarrow> int list \<Rightarrow> int list" where
  "getVector_loop ds 0 index vec = vec"
| "getVector_loop ds (Suc i) index vec =
     getVector_loop ds i (word_of_int (sint index div uint (ds ! i)))
       (vec[i := uint (index mod ds ! i)])"

definition getVector :: "HilbertSpace \<Rightarrow> 32 word \<Rightarrow> int list" where
  "getVector s index =
     getVector_loop (dimensions s) (nat (rank s)) index (replicate (nat (rank s)) 0)"

text \<open>
  \<open>getIndex\<close>: the length check, then \<open>vec[vec.size() - 1]\<close> and
  \<open>_dimensions[_rank - 1]\<close>, which lie outside the vectors when the rank is 0, then the
  loop from \<open>vec.size() - 2\<close> down to 0.  The arithmetic is that of \<open>int\<close>, wrapping
  at 32 bits.
\<close>

fun getIndex_loop :: "32 word list \<Rightarrow> int list \<Rightarrow> nat \<Rightarrow> 32 word \<Rightarrow> 32 word \<Rightarrow> 32 word" where
  "getIndex_loop ds vec 0 index multiplier = index"
| "getIndex_loop ds vec (Suc i) index multiplier =
     getIndex_loop ds vec i (index + word_of_int (vec ! i) * multiplier)
       (multiplier * ds ! i)"

definition getIndex :: "HilbertSpace \<Rightarrow> int list \<Rightarrow> error + int" where
  "getIndex s vec =
     (if int (length vec) \<noteq> rank s then Inl InvalidArgument
      else if vec = [] \<or> length (dimensions s) < length vec then Inl OutOfBounds
      else Inr (sint (getIndex_loop (dimensions s) vec (length vec - 1)
                  (word_of_int (vec ! (length vec - 1)))
                  (dimensions s ! (nat (rank s) - 1)))))"

definition operator_eq :: "HilbertSpace \<Rightarrow> HilbertSpace \<Rightarrow> bool" where
  "operator_eq s other = (dimensions s = dimensions other)"

definition operator_neq :: "HilbertSpace \<Rightarrow> HilbertSpace \<Rightarrow> bool" where
  "operator_neq s other = (\<not> operator_eq s other)"

section \<open>Dense matrices\<close>

text \<open>
  A \<open>MatrixXcd\<close>: its two sizes and its coefficients.  The coefficients are complex
  doubles in the program and exact complex numbers here; rounding is not modelled, the
  tolerances of the checks are.  \<open>isPure\<close> compares a sum of rounded products with
  the bound \<open>1e-15\<close>, and its answer on a pure state depends on the rounding; it is
  not modelled.  The operations are those of the Eigen library the
  methods below call, with their documented meaning.
\<close>

record matrix =
  rows :: nat
  cols :: nat
  coeff :: "nat \<Rightarrow> nat \<Rightarrow> complex"

definition setZero :: "nat \<Rightarrow> nat \<Rightarrow> matrix" where
  "setZero n m = \<lparr>rows = n, cols = m, coeff = (\<lambda>i j. 0)\<rparr>"

definition mat_mult :: "matrix \<Rightarrow> matrix \<Rightarrow> matrix" where
  "mat_mult a b =
     \<lparr>rows = rows a, cols = cols b,
      coeff = (\<lambda>i j. \<Sum>k<cols a. coeff a i k * coeff b k j)\<rparr>"

definition mat_minus :: "matrix \<Rightarrow> matrix \<Rightarrow> matrix" where
  "mat_minus a b =
     \<lparr>rows = rows a, cols = cols a, coeff = (\<lambda>i j. coeff a i j - coeff b i j)\<rparr>"

definition transpose_m :: "matrix \<Rightarrow> matrix" where
  "transpose_m a = \<lparr>rows = cols a, cols = rows a, coeff = (\<lambda>i j. coeff a j i)\<rparr>"

definition adjoint :: "matrix \<Rightarrow> matrix" where
  "adjoint a = \<lparr>rows = cols a, cols = rows a, coeff = (\<lambda>i j. cnj (coeff a j i))\<rparr>"

definition trace_m :: "matrix \<Rightarrow> complex" where
  "trace_m a = (\<Sum>i<rows a. coeff a i i)"

definition squaredNorm :: "matrix \<Rightarrow> real" where
  "squaredNorm a = (\<Sum>i<rows a. \<Sum>j<cols a. (cmod (coeff a i j))\<^sup>2)"

definition normalize_m :: "matrix \<Rightarrow> matrix" where
  "normalize_m a = a\<lparr>coeff := (\<lambda>i j. coeff a i j / complex_of_real (sqrt (squaredNorm a)))\<rparr>"

text \<open>
  \<open>isApprox\<close> with the default precision of doubles, \<open>1e-12\<close>: the distance of the
  two matrices is at most the precision times the smaller of their norms.
\<close>

definition isApprox :: "matrix \<Rightarrow> matrix \<Rightarrow> bool" where
  "isApprox a b \<longleftrightarrow>
     squaredNorm (mat_minus a b) \<le> (1 / 10 ^ 12)\<^sup>2 * min (squaredNorm a) (squaredNorm b)"

text \<open>
  \<open>SelfAdjointEigenSolver\<close> is a parameter of the model: a function from a matrix to
  its eigenvalues and eigenvectors, or to nothing when \<open>info()\<close> is not \<open>Success\<close>.
\<close>

type_synonym eigensolver = "matrix \<Rightarrow> (real list \<times> matrix) option"

section \<open>QuantumState\<close>

record QuantumState =
  density :: matrix
  space :: HilbertSpace
  eigenValues :: "real list"
  eigenVectors :: matrix

text \<open>The fields of an object before its constructor has assigned them.\<close>

definition QuantumState_fresh :: QuantumState where
  "QuantumState_fresh =
     \<lparr>density = setZero 0 0, space = HilbertSpace_default,
      eigenValues = [], eigenVectors = setZero 0 0\<rparr>"

subsection \<open>Checks\<close>

definition checkMatrixIsSelfAdjoined :: "matrix \<Rightarrow> bool" where
  "checkMatrixIsSelfAdjoined matr = isApprox matr (adjoint matr)"

text \<open>
  A method that can throw after it has changed the object returns the exception, if
  any, together with the object as it is then.
\<close>

definition calculateEigenValuesAndVectors ::
  "eigensolver \<Rightarrow> matrix \<Rightarrow> QuantumState \<Rightarrow> error option \<times> QuantumState" where
  "calculateEigenValuesAndVectors solver matr s =
     (if \<not> checkMatrixIsSelfAdjoined matr then (Some InvalidArgument, s)
      else case solver matr of
        None \<Rightarrow> (Some RuntimeError, s)
      | Some (vals, vecs) \<Rightarrow> (None, s\<lparr>eigenValues := vals, eigenVectors := vecs\<rparr>))"

definition checkMatrixIsSquare :: "matrix \<Rightarrow> error option" where
  "checkMatrixIsSquare matr = (if cols matr \<noteq> rows matr then Some InvalidArgument else None)"

text \<open>\<open>_checkMatrixIsDensityMatrix\<close> reads the eigenvalues from the object, not from
  its argument.\<close>

definition checkMatrixIsDensityMatrix :: "QuantumState \<Rightarrow> matrix \<Rightarrow> error option" where
  "checkMatrixIsDensityMatrix s matr =
     (if list_ex (\<lambda>v. \<bar>v\<bar> > 1 / 10 ^ 15 \<and> v < 0) (eigenValues s) then Some InvalidArgument
      else if cmod (trace_m matr - 1) > 1 / 10 ^ 15 then Some InvalidArgument
      else None)"

definition checkSpaceDimension :: "matrix \<Rightarrow> HilbertSpace \<Rightarrow> error option" where
  "checkSpaceDimension matr sp =
     (if totalDimension sp \<noteq> int (rows matr) then Some InvalidArgument else None)"

subsection \<open>Constructor and setMatrix\<close>

definition QuantumState_ctor :: "eigensolver \<Rightarrow> matrix \<Rightarrow> HilbertSpace \<Rightarrow> error + QuantumState" where
  "QuantumState_ctor solver matr sp =
     (case (if cols matr = 1
            then Inr (mat_mult (normalize_m matr) (transpose_m (normalize_m matr)))
            else case checkMatrixIsSquare matr of
                   Some e \<Rightarrow> Inl e
                 | None \<Rightarrow> Inr matr) of
        Inl e \<Rightarrow> Inl e
      | Inr d \<Rightarrow>
          (case calculateEigenValuesAndVectors solver d (QuantumState_fresh\<lparr>density := d\<rparr>) of
             (Some e, s1) \<Rightarrow> Inl e
           | (None, s1) \<Rightarrow>
               (case checkMatrixIsDensityMatrix s1 d of
                  Some e \<Rightarrow> Inl e
                | None \<Rightarrow>
                    (case checkSpaceDimension d sp of
                       Some e \<Rightarrow> Inl e
                     | None \<Rightarrow> Inr (s1\<lparr>space := sp\<rparr>)))))"

definition setMatrix :: "eigensolver \<Rightarrow> matrix \<Rightarrow> QuantumState \<Rightarrow> error option \<times> QuantumState" where
  "setMatrix solver matr s =
     (case checkMatrixIsSquare matr of
        Some e \<Rightarrow> (Some e, s)
      | None \<Rightarrow>
          (case checkSpaceDimension matr (space s) of
             Some e \<Rightarrow> (Some e, s)
           | None \<Rightarrow>
               (case calculateEigenValuesAndVectors solver matr s of
                  (Some e, s1) \<Rightarrow> (Some e, s1)
                | (None, s1) \<Rightarrow>
                    (case checkMatrixIsDensityMatrix s1 matr of
                       Some e \<Rightarrow> (Some e, s1)
                     | None \<Rightarrow> (None, s1\<lparr>density := matr\<rparr>)))))"

subsection \<open>partialTrace\<close>

text \<open>
  \<open>dims.erase(dims.begin() + index)\<close>.
\<close>

definition erase_at :: "nat \<Rightarrow> 'a list \<Rightarrow> 'a list" where
  "erase_at i xs = take i xs @ drop (Suc i) xs"

text \<open>
  The two inner loops over \<open>i\<close>, which fill \<open>vecRightIndex\<close> (started as a copy of
  \<open>vecLeftIndex\<close>) and \<open>vecLeftRed\<close> (started as a copy of \<open>vecRightRed\<close>).  Both run
  \<open>i\<close> from 0 to the size of \<open>vecRightIndex\<close>.  \<open>vecLeftIndex\<close> has as many entries
  as the rank and \<open>vecRightRed\<close> one fewer, and the index is below the rank, so every
  read and write of the loops lies inside its vector.
\<close>

definition vecRightIndex_loop :: "nat \<Rightarrow> int list \<Rightarrow> int list \<Rightarrow> int list" where
  "vecRightIndex_loop index vecLeftIndex vecRightRed =
     foldl (\<lambda>vecRightIndex i.
              if i < index then vecRightIndex[i := vecRightRed ! i]
              else if i > index then vecRightIndex[i := vecRightRed ! (i - 1)]
              else vecRightIndex[i := vecLeftIndex ! index])
       vecLeftIndex [0..<length vecLeftIndex]"

definition vecLeftRed_loop :: "nat \<Rightarrow> int list \<Rightarrow> int list \<Rightarrow> int list" where
  "vecLeftRed_loop index vecLeftIndex vecRightRed =
     foldl (\<lambda>vecLeftRed i.
              if i < index then vecLeftRed[i := vecLeftIndex ! i]
              else if i > index then vecLeftRed[i - 1 := vecLeftIndex ! i]
              else vecLeftRed)
       vecRightRed [0..<length vecLeftIndex]"

text \<open>
  Modelled from the spec: \<open>getBasisVector\<close> is called by \<open>partialTrace\<close> and is not
  among the sources.  The spec's partial trace accumulates the matrix element of the
  density matrix between the basis vectors of two multi-indices, so \<open>getBasisVector\<close> of a
  multi-index is the column of length \<open>totalDimension()\<close> with 1 at \<open>getIndex\<close> of the
  multi-index and 0 elsewhere.
\<close>

definition getBasisVector :: "HilbertSpace \<Rightarrow> int list \<Rightarrow> error + matrix" where
  "getBasisVector s vec =
     (case getIndex s vec of
        Inl e \<Rightarrow> Inl e
      | Inr k \<Rightarrow>
          Inr \<lparr>rows = nat (totalDimension s), cols = 1,
               coeff = (\<lambda>i j. if int i = k then 1 else 0)\<rparr>)"

text \<open>Division of \<open>int\<close> by \<open>int\<close> in C++ truncates towards zero.\<close>

definition int_div :: "int \<Rightarrow> int \<Rightarrow> int" where
  "int_div a b =
     (if (a < 0) = (b < 0) then \<bar>a\<bar> div \<bar>b\<bar> else - (\<bar>a\<bar> div \<bar>b\<bar>))"

text \<open>
  The body of the two nested loops, for one \<open>row\<close> and one \<open>col\<close>: it adds the
  coefficient to one entry of \<open>res\<close>.  \<open>row\<close> and \<open>col\<close> are of type \<open>int\<close> and are
  passed to \<open>getVector\<close> as such.
\<close>

definition partialTrace_body ::
  "QuantumState \<Rightarrow> nat \<Rightarrow> HilbertSpace \<Rightarrow> nat \<Rightarrow> nat \<Rightarrow> matrix \<Rightarrow> error + matrix" where
  "partialTrace_body s index newSpace row col res =
     (let vecLeftIndex = getVector (space s) (of_nat row);
          vecRightRed = getVector newSpace (of_nat col);
          vecRightIndex = vecRightIndex_loop index vecLeftIndex vecRightRed;
          vecLeftRed = vecLeftRed_loop index vecLeftIndex vecRightRed
      in case getBasisVector (space s) vecLeftIndex of
           Inl e \<Rightarrow> Inl e
         | Inr bl \<Rightarrow>
        (case getBasisVector (space s) vecRightIndex of
           Inl e \<Rightarrow> Inl e
         | Inr br \<Rightarrow>
        (let coef = coeff (mat_mult (mat_mult (transpose_m bl) (density s)) br) 0 0
         in case getIndex newSpace vecLeftRed of
              Inl e \<Rightarrow> Inl e
            | Inr a \<Rightarrow>
           (case getIndex newSpace vecRightRed of
              Inl e \<Rightarrow> Inl e
            | Inr b \<Rightarrow>
                if 0 \<le> a \<and> nat a < rows res \<and> 0 \<le> b \<and> nat b < cols res
                then Inr (res\<lparr>coeff := (coeff res)(nat a := (coeff res (nat a))
                            (nat b := coeff res (nat a) (nat b) + coef))\<rparr>)
                else Inl OutOfBounds))))"

fun partialTrace_cols ::
  "QuantumState \<Rightarrow> nat \<Rightarrow> HilbertSpace \<Rightarrow> nat \<Rightarrow> nat list \<Rightarrow> matrix \<Rightarrow> error + matrix" where
  "partialTrace_cols s index newSpace row [] res = Inr res"
| "partialTrace_cols s index newSpace row (col # cs) res =
     (case partialTrace_body s index newSpace row col res of
        Inl e \<Rightarrow> Inl e
      | Inr res' \<Rightarrow> partialTrace_cols s index newSpace row cs res')"

text \<open>
  The outer loop.  The bound of the inner loop, \<open>_space.totalDimension() /
  _space.dimension(index)\<close>, is evaluated for every row; \<open>dimension\<close> throws
  \<open>std::out_of_range\<close> for an index outside the rank.
\<close>

fun partialTrace_rows ::
  "QuantumState \<Rightarrow> nat \<Rightarrow> HilbertSpace \<Rightarrow> nat list \<Rightarrow> matrix \<Rightarrow> error + matrix" where
  "partialTrace_rows s index newSpace [] res = Inr res"
| "partialTrace_rows s index newSpace (row # rs) res =
     (case dimension (space s) (int index) of
        Inl e \<Rightarrow> Inl e
      | Inr d \<Rightarrow>
        (case partialTrace_cols s index newSpace row
                [0..<nat (int_div (totalDimension (space s)) d)] res of
           Inl e \<Rightarrow> Inl e
         | Inr res' \<Rightarrow> partialTrace_rows s index newSpace rs res'))"

text \<open>
  \<open>partialTrace\<close> up to the call of the constructor: the reduced space and the
  matrix \<open>res\<close>.
\<close>

definition partialTrace_matrix :: "QuantumState \<Rightarrow> nat \<Rightarrow> error + HilbertSpace \<times> matrix" where
  "partialTrace_matrix s index =
     (case HilbertSpace_dims (erase_at index (dimensions (space s))) of
        Inl e \<Rightarrow> Inl e
      | Inr newSpace \<Rightarrow>
         (case partialTrace_rows s index newSpace [0..<nat (totalDimension (space s))]
                 (setZero (nat (totalDimension newSpace)) (nat (totalDimension newSpace))) of
            Inl e \<Rightarrow> Inl e
          | Inr res \<Rightarrow> Inr (newSpace, res)))"

text \<open>
  \<open>partialTrace\<close> is a \<open>const\<close> method: it returns its result, or the exception, and
  the object, which is the one it was called on.
\<close>

definition partialTrace ::
  "eigensolver \<Rightarrow> QuantumState \<Rightarrow> 32 word \<Rightarrow> (error + QuantumState) \<times> QuantumState" where
  "partialTrace solver s index =
     (if sint index < 0 then (Inl InvalidArgument, s)
      else if sint index \<ge> rank (space s) then (Inl InvalidArgument, s)
      else case partialTrace_matrix s (nat (sint index)) of
             Inl e \<Rightarrow> (Inl e, s)
           | Inr (newSpace, res) \<Rightarrow> (QuantumState_ctor solver res newSpace, s))"


section \<open>Well-formed spaces and mixed-radix numbers\<close>

text \<open>
  A space is well formed when its rank is the length of its dimension list, no
  dimension is zero, and \<open>_dim\<close> is the 32-bit product of the dimensions or 0 (the
  default constructor's value, which every product with it keeps).
\<close>

definition wellformed :: "HilbertSpace \<Rightarrow> bool" where
  "wellformed s \<longleftrightarrow>
     rank s = int (length (dimensions s)) \<and> 0 \<notin> set (dimensions s) \<and>
     (totalDim s = prod_list (dimensions s) \<or> totalDim s = 0)"

inductive constructed :: "HilbertSpace \<Rightarrow> bool" where
  c_default: "constructed HilbertSpace_default"
| c_dim: "HilbertSpace_dim d = Inr s \<Longrightarrow> constructed s"
| c_dims: "HilbertSpace_dims ds = Inr s \<Longrightarrow> constructed s"
| c_tensorWith: "constructed (h this) \<Longrightarrow> constructed (h second) \<Longrightarrow> this \<noteq> second \<Longrightarrow>
     tensorWith this second h = Inr h' \<Longrightarrow> constructed (h' this)"

text \<open>
  The invariant of the data model in three parts: the rank is the length of the
  dimension list; \<open>_dim\<close> is the product of the dimensions as a 32-bit value; and
  \<open>totalDimension()\<close> is the product of the dimensions as a number.
\<close>

definition rank_invariant :: "HilbertSpace \<Rightarrow> bool" where
  "rank_invariant s \<longleftrightarrow> rank s = int (length (dimensions s))"

definition product_invariant32 :: "HilbertSpace \<Rightarrow> bool" where
  "product_invariant32 s \<longleftrightarrow> totalDim s = prod_list (dimensions s)"

definition product_invariant :: "HilbertSpace \<Rightarrow> bool" where
  "product_invariant s \<longleftrightarrow> totalDimension s = prod_list (map uint (dimensions s))"

text \<open>
  Mixed-radix numbers over integers, least significant digit first: what \<open>getVector\<close>
  and \<open>getIndex\<close> compute when read from the last dimension to the first.
\<close>

fun encode :: "int list \<Rightarrow> int \<Rightarrow> int list" where
  "encode [] n = []"
| "encode (d # ds) n = (n mod d) # encode ds (n div d)"

fun decode :: "'a::comm_semiring_1 list \<Rightarrow> 'a list \<Rightarrow> 'a" where
  "decode [] vs = 0"
| "decode (d # ds) [] = 0"
| "decode (d # ds) (v # vs) = v + d * decode ds vs"

text \<open>
  Digits of a number, most significant first as \<open>getVector\<close> stores them, and the
  number of a digit list; a digit list is valid for a list of dimensions when it has
  its length and every digit lies below its dimension.
\<close>

definition digits :: "int list \<Rightarrow> int \<Rightarrow> int list" where
  "digits ds n = rev (encode (rev ds) n)"

definition undigits :: "int list \<Rightarrow> int list \<Rightarrow> int" where
  "undigits ds vs = decode (rev ds) (rev vs)"

definition valid_digits :: "int list \<Rightarrow> int list \<Rightarrow> bool" where
  "valid_digits ds vs \<longleftrightarrow>
     length vs = length ds \<and> (\<forall>k<length ds. 0 \<le> vs ! k \<and> vs ! k < ds ! k)"

definition insert_at :: "nat \<Rightarrow> 'a \<Rightarrow> 'a list \<Rightarrow> 'a list" where
  "insert_at i x xs = take i xs @ [x] @ drop i xs"

text \<open>
  The dimensions of a space as numbers.  A space is good when it is well formed and
  \<open>totalDimension()\<close> is the product of its dimensions; the product is then below
  \<open>2 ^ 31\<close>.  The reduced space is the value the list constructor returns for the
  dimensions without the one at \<open>t\<close>.
\<close>

definition idims :: "HilbertSpace \<Rightarrow> int list" where
  "idims s = map uint (dimensions s)"

definition good_space :: "HilbertSpace \<Rightarrow> bool" where
  "good_space s \<longleftrightarrow> wellformed s \<and> product_invariant s"

definition reduced_space :: "HilbertSpace \<Rightarrow> nat \<Rightarrow> HilbertSpace" where
  "reduced_space s t =
     \<lparr>rank = int (length (erase_at t (dimensions s))),
      dimensions = erase_at t (dimensions s),
      totalDim = prod_list (erase_at t (dimensions s))\<rparr>"

text \<open>
  The indices of the partial trace.  \<open>full_index s t x k\<close> is the flat index in the
  space \<open>s\<close> of the multi-index obtained from the multi-index of \<open>x\<close> in the reduced
  space by inserting the digit \<open>k\<close> at position \<open>t\<close>; \<open>reduced_index\<close> and
  \<open>digit_at\<close> take a flat index of \<open>s\<close> apart again.
\<close>

definition full_index :: "HilbertSpace \<Rightarrow> nat \<Rightarrow> nat \<Rightarrow> nat \<Rightarrow> nat" where
  "full_index s t x k =
     nat (undigits (idims s) (insert_at t (int k) (digits (erase_at t (idims s)) (int x))))"

definition reduced_index :: "HilbertSpace \<Rightarrow> nat \<Rightarrow> nat \<Rightarrow> nat" where
  "reduced_index s t row =
     nat (undigits (erase_at t (idims s)) (erase_at t (digits (idims s) (int row))))"

definition digit_at :: "HilbertSpace \<Rightarrow> nat \<Rightarrow> nat \<Rightarrow> nat" where
  "digit_at s t row = nat (digits (idims s) (int row) ! t)"

text \<open>
  A state as the theorems on \<open>partialTrace\<close> need it: its space is good and its
  density matrix is square of the total dimension of the space, as the constructor
  checks.  \<open>add_coeff\<close> is the update \<open>res(a, b) += c\<close>.
\<close>

definition valid_state :: "QuantumState \<Rightarrow> bool" where
  "valid_state s \<longleftrightarrow>
     good_space (space s) \<and>
     rows (density s) = nat (totalDimension (space s)) \<and>
     cols (density s) = nat (totalDimension (space s))"

definition add_coeff :: "nat \<Rightarrow> nat \<Rightarrow> complex \<Rightarrow> matrix \<Rightarrow> matrix" where
  "add_coeff a b c res =
     res\<lparr>coeff := (coeff res)(a := (coeff res a)(b := coeff res a b + c))\<rparr>"

section \<open>Matrices and an eigen-solver for the examples\<close>

text \<open>
  The eigenvalues of a real diagonal matrix are its diagonal entries, and the unit
  vectors are eigenvectors.  \<open>diagonal_solver\<close> returns these for any matrix; it stands
  for the eigen-solver in the closed examples, all of which pass it diagonal matrices.
\<close>

definition diagonal_matrix :: "real list \<Rightarrow> matrix" where
  "diagonal_matrix xs =
     \<lparr>rows = length xs, cols = length xs,
      coeff = (\<lambda>i j. if i = j \<and> i < length xs then complex_of_real (xs ! i) else 0)\<rparr>"

definition diagonal_solver :: eigensolver where
  "diagonal_solver m =
     Some (map (\<lambda>i. Re (coeff m i i)) [0..<rows m], diagonal_matrix (replicate (rows m) 1))"

text \<open>The state vector with the components 1 and \<open>\<i>\<close>, as a matrix of one column.\<close>

definition column_1_i :: matrix where
  "column_1_i = \<lparr>rows = 2, cols = 1, coeff = (\<lambda>i j. if i = 0 then 1 else \<i>)\<rparr>"

text \<open>
  The space of two factors of dimension 2, and the state the constructor builds with
  \<open>diagonal_solver\<close> from a diagonal matrix.
\<close>

definition space_2x2 :: HilbertSpace where
  "space_2x2 = \<lparr>rank = 2, dimensions = [2, 2], totalDim = 4\<rparr>"

definition diagonal_state :: "real list \<Rightarrow> HilbertSpace \<Rightarrow> QuantumState" where
  "diagonal_state xs sp =
     \<lparr>density = diagonal_matrix xs, space = sp, eigenValues = xs,
      eigenVectors = diagonal_matrix (replicate (length xs) 1)\<rparr>"

section \<open>Properties of HilbertSpace\<close>

lemma dims_loop_nonzero: "0 \<notin> set ds \<Longrightarrow> dims_loop ds acc = Inr (acc * prod_list ds)"
  by (induction ds arbitrary: acc) (auto simp: mult.assoc)

lemma dims_loop_zero: "0 \<in> set ds \<Longrightarrow> dims_loop ds acc = Inl InvalidArgument"
  by (induction ds arbitrary: acc) auto

lemma HilbertSpace_dims_eq:
  "HilbertSpace_dims ds =
     (if 0 \<in> set ds then Inl InvalidArgument
      else Inr \<lparr>rank = int (length ds), dimensions = ds, totalDim = prod_list ds\<rparr>)"
  by (simp add: HilbertSpace_dims_def dims_loop_nonzero dims_loop_zero)

text \<open>The loop of \<open>tensorWith\<close> when the argument is another object: it appends the
  rest of the argument's dimensions.\<close>

lemma tensorWith_loop_distinct:
  assumes "this \<noteq> second" "rank (h second) = int (length (dimensions (h second)))"
  shows "tensorWith_loop this second i h =
     Inr (h(this := (h this)\<lparr>dimensions := dimensions (h this) @ drop i (dimensions (h second))\<rparr>))"
  using assms
proof (induction this second i h rule: tensorWith_loop.induct)
  case (1 this second i h)
  show ?case
  proof (cases "i < length (dimensions (h second))")
    case True
    let ?h = "h(this := (h this)\<lparr>dimensions := dimensions (h this) @ [dimensions (h second) ! i]\<rparr>)"
    have "tensorWith_loop this second (Suc i) ?h =
      Inr (?h(this := (?h this)\<lparr>dimensions := dimensions (?h this) @ drop (Suc i) (dimensions (?h second))\<rparr>))"
      using 1 True by (intro "1.IH") auto
    then show ?thesis
      using True 1(2,3) by (subst tensorWith_loop.simps) (simp add: Cons_nth_drop_Suc)
  next
    case False
    then show ?thesis
      using 1(2,3) by (subst tensorWith_loop.simps) simp
  qed
qed

lemma HilbertSpace_update_all:
  "s\<lparr>rank := a, dimensions := b, totalDim := c\<rparr> = \<lparr>rank = a, dimensions = b, totalDim = c\<rparr>"
  by (cases s) simp

lemma tensorWith_distinct:
  assumes "this \<noteq> second" "rank (h second) = int (length (dimensions (h second)))"
  shows "tensorWith this second h =
     Inr (h(this := \<lparr>rank = rank (h this) + rank (h second),
                     dimensions = dimensions (h this) @ dimensions (h second),
                     totalDim = totalDim (h this) * totalDim (h second)\<rparr>))"
proof -
  let ?h1 = "h(this := (h this)\<lparr>rank := rank (h this) + rank (h second)\<rparr>)"
  have "tensorWith_loop this second 0 ?h1 =
     Inr (?h1(this := (?h1 this)\<lparr>dimensions := dimensions (?h1 this) @ drop 0 (dimensions (?h1 second))\<rparr>))"
    using assms by (intro tensorWith_loop_distinct) auto
  then show ?thesis
    using assms by (simp add: tensorWith_def Let_def HilbertSpace_update_all)
qed

lemma wellformed_default: "wellformed HilbertSpace_default"
  by (simp add: wellformed_def HilbertSpace_default_def)

lemma wellformed_dim: "HilbertSpace_dim d = Inr s \<Longrightarrow> wellformed s"
  by (auto simp: wellformed_def HilbertSpace_dim_def split: if_splits)

lemma wellformed_dims: "HilbertSpace_dims ds = Inr s \<Longrightarrow> wellformed s"
  by (auto simp: wellformed_def HilbertSpace_dims_eq split: if_splits)

lemma wellformed_tensorWith:
  assumes "wellformed (h this)" "wellformed (h second)" "this \<noteq> second"
    and "tensorWith this second h = Inr h'"
  shows "wellformed (h' this)"
proof -
  have r: "rank (h second) = int (length (dimensions (h second)))"
    using assms(2) by (simp add: wellformed_def)
  have "h' = h(this := \<lparr>rank = rank (h this) + rank (h second),
                     dimensions = dimensions (h this) @ dimensions (h second),
                     totalDim = totalDim (h this) * totalDim (h second)\<rparr>)"
    using tensorWith_distinct[of this second h] assms(3,4) r by simp
  then show ?thesis
    using assms(1,2) by (auto simp: wellformed_def)
qed

lemma constructed_wellformed: "constructed s \<Longrightarrow> wellformed s"
  by (induction rule: constructed.induct)
     (auto intro: wellformed_default wellformed_dim wellformed_dims wellformed_tensorWith)


lemma sint_word_of_int_small:
  "0 \<le> x \<Longrightarrow> x < 2 ^ 31 \<Longrightarrow> sint (word_of_int x :: 32 word) = x"
  by (simp add: sint_sbintrunc' signed_take_bit_int_eq_self)

lemma uint_eq_sint_nonneg:
  fixes w :: "32 word"
  assumes "0 \<le> sint w"
  shows "uint w = sint w"
proof -
  have lt: "sint w < 2 ^ 31"
    using sint_lt[of w] by simp
  have "uint w = sint w mod 2 ^ 32"
    using uint_word_of_int[of "sint w", where ?'a = 32] by simp
  also have "\<dots> = sint w"
    using assms lt by simp
  finally show ?thesis .
qed

lemma word_of_int_prod_list_uint:
  "(word_of_int (prod_list (map uint ds)) :: 32 word) = prod_list ds"
  by (induction ds) (simp_all add: word_of_int_hom_syms(3)[symmetric] wi_hom_mult[symmetric])

lemma product_invariant32_exact:
  assumes "product_invariant32 s" "prod_list (map uint (dimensions s)) < 2 ^ 31"
  shows "product_invariant s"
proof -
  let ?P = "prod_list (map uint (dimensions s))"
  have nonneg: "0 \<le> ?P"
    by (rule prod_list_nonneg) auto
  have "totalDim s = word_of_int ?P"
    using assms(1) by (simp add: product_invariant32_def word_of_int_prod_list_uint)
  then have "sint (totalDim s) = ?P"
    using nonneg assms(2) by (simp add: sint_word_of_int_small)
  then show ?thesis
    by (simp add: product_invariant_def totalDimension_def)
qed

text \<open>
  Claim C9.  The list constructor accepts the empty list and builds a space of rank 0
  and total dimension 1; the default constructor builds a space of rank 0 and total
  dimension 0; \<open>operator==\<close> compares the dimension lists only, so the two are equal
  although their total dimensions differ.
\<close>

theorem empty_list_space_equals_default:
  "HilbertSpace_dims [] = Inr \<lparr>rank = 0, dimensions = [], totalDim = 1\<rparr> \<and>
   rank \<lparr>rank = 0, dimensions = [], totalDim = 1\<rparr> = 0 \<and>
   totalDimension \<lparr>rank = 0, dimensions = [], totalDim = 1\<rparr> = 1 \<and>
   rank HilbertSpace_default = 0 \<and>
   totalDimension HilbertSpace_default = 0 \<and>
   operator_eq \<lparr>rank = 0, dimensions = [], totalDim = 1\<rparr> HilbertSpace_default \<and>
   totalDimension \<lparr>rank = 0, dimensions = [], totalDim = 1\<rparr> \<noteq> totalDimension HilbertSpace_default"
  by (simp add: HilbertSpace_dims_def HilbertSpace_default_def totalDimension_def operator_eq_def)

text \<open>
  Claim C4, as stated, fails at the default constructor: it sets \<open>_dim\<close> to 0 and
  leaves the dimension list empty, whose product is 1.
\<close>

theorem default_space_breaks_product_invariant:
  "\<not> product_invariant HilbertSpace_default"
  by (simp add: product_invariant_def HilbertSpace_default_def totalDimension_def)

text \<open>
  Claim C4, amended.  The rank is the length of the dimension list after each of the
  three constructors, and \<open>tensorWith\<close> on another object keeps it so.  \<open>_dim\<close> is the
  product of the dimensions as a 32-bit value after the one-dimension and the list
  constructor, and \<open>tensorWith\<close> on another object keeps that when both spaces have it;
  where the product of the dimensions is below \<open>2 ^ 31\<close>, \<open>totalDimension()\<close> is that
  product.  \<open>tensorWith\<close> changes no other object.
\<close>

theorem invariant_of_constructors_and_tensorWith:
  "rank_invariant HilbertSpace_default \<and>
   (HilbertSpace_dim d = Inr s1 \<longrightarrow> rank_invariant s1 \<and> product_invariant32 s1) \<and>
   (HilbertSpace_dims ds = Inr s2 \<longrightarrow> rank_invariant s2 \<and> product_invariant32 s2) \<and>
   (this \<noteq> second \<and> rank_invariant (h this) \<and> rank_invariant (h second) \<longrightarrow>
      (\<exists>h'. tensorWith this second h = Inr h' \<and> rank_invariant (h' this) \<and>
         (product_invariant32 (h this) \<and> product_invariant32 (h second) \<longrightarrow>
            product_invariant32 (h' this)) \<and>
         (\<forall>a. a \<noteq> this \<longrightarrow> h' a = h a))) \<and>
   (product_invariant32 s3 \<and> prod_list (map uint (dimensions s3)) < 2 ^ 31 \<longrightarrow>
      product_invariant s3)"
proof (intro conjI impI)
  show "rank_invariant HilbertSpace_default"
    by (simp add: rank_invariant_def HilbertSpace_default_def)
next
  assume "HilbertSpace_dim d = Inr s1"
  then show "rank_invariant s1" "product_invariant32 s1"
    by (auto simp: HilbertSpace_dim_def rank_invariant_def product_invariant32_def
        split: if_splits)
next
  assume "HilbertSpace_dims ds = Inr s2"
  then show "rank_invariant s2" "product_invariant32 s2"
    by (auto simp: HilbertSpace_dims_eq rank_invariant_def product_invariant32_def
        split: if_splits)
next
  assume a: "this \<noteq> second \<and> rank_invariant (h this) \<and> rank_invariant (h second)"
  let ?h' = "h(this := \<lparr>rank = rank (h this) + rank (h second),
                     dimensions = dimensions (h this) @ dimensions (h second),
                     totalDim = totalDim (h this) * totalDim (h second)\<rparr>)"
  have "tensorWith this second h = Inr ?h'"
    using a tensorWith_distinct[of this second h] by (simp add: rank_invariant_def)
  moreover have "rank_invariant (?h' this)"
    using a by (simp add: rank_invariant_def)
  moreover have "product_invariant32 (h this) \<and> product_invariant32 (h second) \<longrightarrow>
      product_invariant32 (?h' this)"
    by (simp add: product_invariant32_def)
  moreover have "\<forall>a. a \<noteq> this \<longrightarrow> ?h' a = h a"
    by simp
  ultimately show "\<exists>h'. tensorWith this second h = Inr h' \<and> rank_invariant (h' this) \<and>
         (product_invariant32 (h this) \<and> product_invariant32 (h second) \<longrightarrow>
            product_invariant32 (h' this)) \<and>
         (\<forall>a. a \<noteq> this \<longrightarrow> h' a = h a)"
    by blast
next
  assume "product_invariant32 s3 \<and> prod_list (map uint (dimensions s3)) < 2 ^ 31"
  then show "product_invariant s3"
    using product_invariant32_exact by blast
qed

theorem invariant_of_constructors_and_tensorWith_witness:
  "HilbertSpace_dim 2 = Inr \<lparr>rank = 1, dimensions = [2], totalDim = 2\<rparr> \<and>
   rank_invariant \<lparr>rank = 1, dimensions = [2], totalDim = 2\<rparr> \<and>
   product_invariant32 \<lparr>rank = 1, dimensions = [2], totalDim = 2\<rparr> \<and>
   HilbertSpace_dims [2, 3] = Inr \<lparr>rank = 2, dimensions = [2, 3], totalDim = 6\<rparr> \<and>
   rank_invariant \<lparr>rank = 2, dimensions = [2, 3], totalDim = 6\<rparr> \<and>
   product_invariant32 \<lparr>rank = 2, dimensions = [2, 3], totalDim = 6\<rparr> \<and>
   (\<exists>h'. tensorWith 0 1
           ((\<lambda>a. HilbertSpace_default)
              (0 := \<lparr>rank = 1, dimensions = [2], totalDim = 2\<rparr>,
               1 := \<lparr>rank = 2, dimensions = [2, 3], totalDim = 6\<rparr>)) = Inr h' \<and>
         rank_invariant (h' 0) \<and> product_invariant32 (h' 0)) \<and>
   product_invariant \<lparr>rank = 2, dimensions = [2, 3], totalDim = 6\<rparr>"
  using invariant_of_constructors_and_tensorWith
    [of 2 "\<lparr>rank = 1, dimensions = [2], totalDim = 2\<rparr>"
        "[2, 3]" "\<lparr>rank = 2, dimensions = [2, 3], totalDim = 6\<rparr>"
        0 1 "(\<lambda>a. HilbertSpace_default)
              (0 := \<lparr>rank = 1, dimensions = [2], totalDim = 2\<rparr>,
               1 := \<lparr>rank = 2, dimensions = [2, 3], totalDim = 6\<rparr>)"
        "\<lparr>rank = 2, dimensions = [2, 3], totalDim = 6\<rparr>"]
  by (auto simp: HilbertSpace_dim_def HilbertSpace_dims_def rank_invariant_def
      product_invariant32_def)

text \<open>
  Claim C6.  For well-formed spaces at \<open>first\<close> and \<open>second\<close> (which may be the same
  object), the static \<open>tensor\<close> returns a space whose dimension list is that of
  \<open>first\<close> followed by that of \<open>second\<close> and whose rank is the sum of the ranks, and
  the objects at \<open>first\<close> and \<open>second\<close> are as they were.  The address \<open>loc\<close> of
  the local copy is neither of theirs.
\<close>

theorem tensor_concatenates:
  assumes "loc \<noteq> first" "loc \<noteq> second"
    and "wellformed (h first)" "wellformed (h second)"
  shows "\<exists>h'. tensor loc first second h = Inr h' \<and>
     dimensions (h' loc) = dimensions (h first) @ dimensions (h second) \<and>
     rank (h' loc) = rank (h first) + rank (h second) \<and>
     h' first = h first \<and> h' second = h second"
proof -
  let ?h0 = "h(loc := h first)"
  have "rank (?h0 second) = int (length (dimensions (?h0 second)))"
    using assms by (simp add: wellformed_def)
  then show ?thesis
    using assms(1,2) tensorWith_distinct[of loc second ?h0]
    by (simp add: tensor_def)
qed

theorem tensor_concatenates_witness:
  "\<exists>h'. tensor 2 0 1
           ((\<lambda>a. HilbertSpace_default)
              (0 := \<lparr>rank = 1, dimensions = [2], totalDim = 2\<rparr>,
               1 := \<lparr>rank = 2, dimensions = [3, 5], totalDim = 15\<rparr>)) = Inr h' \<and>
     dimensions (h' 2) = [2, 3, 5] \<and> rank (h' 2) = 3 \<and>
     h' 0 = \<lparr>rank = 1, dimensions = [2], totalDim = 2\<rparr> \<and>
     h' 1 = \<lparr>rank = 2, dimensions = [3, 5], totalDim = 15\<rparr>"
  using tensor_concatenates
    [of 2 0 1 "(\<lambda>a. HilbertSpace_default)
              (0 := \<lparr>rank = 1, dimensions = [2], totalDim = 2\<rparr>,
               1 := \<lparr>rank = 2, dimensions = [3, 5], totalDim = 15\<rparr>)"]
  by (simp add: wellformed_def)

subsection \<open>Index and multi-index\<close>

lemma length_encode: "length (encode ds n) = length ds"
  by (induction ds arbitrary: n) auto

lemma encode_digit_range:
  assumes "\<forall>d\<in>set ds. 0 < d" "k < length ds"
  shows "0 \<le> encode ds n ! k \<and> encode ds n ! k < ds ! k"
  using assms
proof (induction ds arbitrary: n k)
  case Nil
  then show ?case by simp
next
  case (Cons d ds)
  then show ?case by (cases k) auto
qed

lemma decode_encode:
  assumes "\<forall>d\<in>set ds. 0 < d" "0 \<le> n"
  shows "decode ds (encode ds n) = n mod prod_list ds"
  using assms
proof (induction ds arbitrary: n)
  case Nil
  then show ?case by simp
next
  case (Cons d ds)
  have p: "0 \<le> prod_list ds"
    using Cons.prems(1) by (intro prod_list_nonneg) (auto intro: less_imp_le)
  have "decode (d # ds) (encode (d # ds) n) = n mod d + d * ((n div d) mod prod_list ds)"
    using Cons by (simp add: pos_imp_zdiv_nonneg_iff)
  also have "\<dots> = n mod (d * prod_list ds)"
    using p by (simp add: zmod_zmult2_eq)
  finally show ?case by simp
qed

lemma encode_decode:
  assumes "length vs = length ds" "\<forall>k<length ds. 0 \<le> vs ! k \<and> vs ! k < ds ! k"
  shows "encode ds (decode ds vs) = vs"
  using assms
proof (induction ds vs rule: list_induct2')
  case (4 d ds v vs)
  have v: "0 \<le> v" "v < d"
    using "4.prems"(2) by auto
  have rest: "\<forall>k<length ds. 0 \<le> vs ! k \<and> vs ! k < ds ! k"
    using "4.prems"(2) by auto
  have "(v + d * decode ds vs) mod d = v"
    using v by simp
  moreover have "(v + d * decode ds vs) div d = decode ds vs"
    using v by simp
  ultimately show ?case
    using 4 rest by simp
qed simp_all

lemma word_of_int_decode:
  "(word_of_int (decode ds vs) :: 32 word) = decode (map word_of_int ds) (map word_of_int vs)"
  by (induction ds vs rule: decode.induct) (simp_all add: wi_hom_syms)


lemma uint_pos:
  fixes w :: "32 word"
  assumes "w \<noteq> 0"
  shows "0 < uint w"
proof -
  have "uint w \<noteq> 0" using assms by (simp add: uint_0_iff)
  moreover have "0 \<le> uint w" by simp
  ultimately show ?thesis by linarith
qed

lemma getVector_loop_encode:
  assumes "0 \<le> sint index" "k \<le> length ds" "k \<le> length vec" "0 \<notin> set ds"
  shows "getVector_loop ds k index vec =
     rev (encode (rev (map uint (take k ds))) (sint index)) @ drop k vec"
  using assms
proof (induction k arbitrary: index vec)
  case 0
  then show ?case by simp
next
  case (Suc i)
  let ?n = "sint index"
  let ?d = "uint (ds ! i)"
  have i: "i < length ds" "i < length vec"
    using Suc.prems by auto
  have dpos: "0 < ?d"
  proof -
    have "ds ! i \<in> set ds" using i by simp
    then have "ds ! i \<noteq> 0" using Suc.prems(4) by metis
    then show ?thesis by (rule uint_pos)
  qed
  have n: "uint index = ?n" "?n < 2 ^ 31"
    using uint_eq_sint_nonneg[OF Suc.prems(1)] sint_lt[of index] by simp_all
  have q: "0 \<le> ?n div ?d" "?n div ?d < 2 ^ 31"
  proof -
    show "0 \<le> ?n div ?d"
      using Suc.prems(1) dpos by (simp add: pos_imp_zdiv_nonneg_iff)
    have "?n div ?d \<le> ?n"
      using Suc.prems(1) dpos zdiv_mono2[of ?n 1 ?d] by simp
    then show "?n div ?d < 2 ^ 31"
      using n(2) by linarith
  qed
  have sq: "sint (word_of_int (?n div ?d) :: 32 word) = ?n div ?d"
    using q by (rule sint_word_of_int_small)
  have digit: "uint (index mod ds ! i) = ?n mod ?d"
    using n(1) by (simp add: uint_mod)
  have "getVector_loop ds (Suc i) index vec =
      getVector_loop ds i (word_of_int (?n div ?d)) (vec[i := ?n mod ?d])"
    by (simp add: digit)
  also have "\<dots> = rev (encode (rev (map uint (take i ds))) (?n div ?d)) @ drop i (vec[i := ?n mod ?d])"
    using Suc.prems i q by (subst Suc.IH) (simp_all add: sq)
  also have "drop i (vec[i := ?n mod ?d]) = (?n mod ?d) # drop (Suc i) vec"
    using i by (simp add: drop_update_cancel Cons_nth_drop_Suc[symmetric] upd_conv_take_nth_drop)
  finally show ?case
    using i by (simp add: take_Suc_conv_app_nth)
qed

lemma getIndex_loop_decode:
  assumes "k \<le> length ds" "k \<le> length vec"
  shows "getIndex_loop ds vec k index multiplier =
     index + multiplier * decode (rev (take k ds)) (rev (map word_of_int (take k vec)))"
  using assms
proof (induction k arbitrary: index multiplier)
  case 0
  then show ?case by simp
next
  case (Suc i)
  then show ?case
    by (simp add: take_Suc_conv_app_nth algebra_simps)
qed


lemma prod_list_rev_int: "prod_list (rev xs) = prod_list (xs :: int list)"
  by (induction xs) simp_all

lemma getVector_encode:
  assumes "wellformed s" "0 \<le> sint index"
  shows "getVector s index = rev (encode (rev (map uint (dimensions s))) (sint index))"
proof -
  have r: "nat (rank s) = length (dimensions s)" and nz: "0 \<notin> set (dimensions s)"
    using assms(1) by (simp_all add: wellformed_def)
  show ?thesis
    using getVector_loop_encode[OF assms(2), of "length (dimensions s)" "dimensions s"
        "replicate (length (dimensions s)) 0"] nz
    by (simp add: getVector_def r)
qed

lemma getIndex_decode:
  assumes "rank s = int (length (dimensions s))" "length vec = length (dimensions s)"
    and "dimensions s \<noteq> []"
  shows "getIndex s vec = Inr (sint (decode (rev (dimensions s)) (rev (map word_of_int vec))))"
proof -
  obtain ds d where ds: "dimensions s = ds @ [d]"
    using assms(3) by (metis rev_exhaust)
  have "vec \<noteq> []"
    using assms(2,3) by auto
  then obtain vs v where vs: "vec = vs @ [v]"
    by (metis rev_exhaust)
  have len: "length vs = length ds"
    using assms(2) ds vs by simp
  have "getIndex_loop (ds @ [d]) (vs @ [v]) (length vs) (word_of_int v) d =
      word_of_int v + d * decode (rev (take (length vs) (ds @ [d])))
        (rev (map word_of_int (take (length vs) (vs @ [v]))))"
    using len by (intro getIndex_loop_decode) simp_all
  then have "getIndex_loop (ds @ [d]) (vs @ [v]) (length vs) (word_of_int v) d =
      decode (rev (ds @ [d])) (rev (map word_of_int (vs @ [v])))"
    using len by simp
  moreover have "length vec - 1 = length vs" "vec ! length vs = v"
    by (simp_all add: vs)
  moreover have "dimensions s ! (nat (rank s) - 1) = d"
  proof -
    have "nat (rank s) - 1 = length ds"
      using assms(1) by (simp add: ds nat_add_distrib)
    then show ?thesis
      by (simp add: ds)
  qed
  moreover have "getIndex s vec =
      Inr (sint (getIndex_loop (dimensions s) vec (length vec - 1)
                  (word_of_int (vec ! (length vec - 1)))
                  (dimensions s ! (nat (rank s) - 1))))"
    using assms \<open>vec \<noteq> []\<close> by (simp add: getIndex_def)
  ultimately show ?thesis
    by (simp add: ds vs)
qed



lemma sint_eq_uint_small:
  fixes w :: "32 word"
  assumes "uint w < 2 ^ 31"
  shows "sint w = uint w"
proof -
  have "sint (word_of_int (uint w) :: 32 word) = uint w"
    using assms by (intro sint_word_of_int_small) simp_all
  then show ?thesis by simp
qed


lemma prod_list_pos_int:
  assumes "\<forall>d\<in>set ds. (0::int) < d"
  shows "0 < prod_list ds"
  using assms by (induction ds) (auto intro!: mult_pos_pos)

lemma member_le_prod_list:
  assumes "\<forall>d\<in>set ds. (0::int) < d" "x \<in> set ds"
  shows "x \<le> prod_list ds"
  using assms
proof (induction ds)
  case Nil
  then show ?case by simp
next
  case (Cons d ds)
  have p: "0 < prod_list ds"
    using Cons.prems(1) by (intro prod_list_pos_int) auto
  show ?case
  proof (cases "x = d")
    case True
    have "d * 1 \<le> d * prod_list ds"
      using p Cons.prems(1) by (intro mult_left_mono) auto
    then show ?thesis using True by simp
  next
    case False
    then have "x \<le> prod_list ds"
      using Cons by auto
    moreover have "1 * prod_list ds \<le> d * prod_list ds"
      using p Cons.prems(1) by (intro mult_right_mono) auto
    ultimately show ?thesis by simp
  qed
qed






section \<open>Properties of QuantumState\<close>

lemma sum_lessThan_1: "(\<Sum>i<1. f i) = ((f :: nat \<Rightarrow> 'a::comm_monoid_add) 0)"
  using sum.lessThan_Suc[of f 0] by simp


lemma sum_lessThan_2: "(\<Sum>i<2. f i) = f 0 + (f (Suc 0) :: 'a::comm_monoid_add)"
  by (simp add: numeral_2_eq_2)

lemma trace_diag2: "trace_m (diagonal_matrix [a, b]) = complex_of_real a + complex_of_real b"
  by (simp add: trace_m_def diagonal_matrix_def sum_lessThan_2)

lemma squaredNorm_minus_adjoint_diag:
  "squaredNorm (mat_minus (diagonal_matrix xs) (adjoint (diagonal_matrix xs))) = 0"
  by (auto simp: squaredNorm_def mat_minus_def adjoint_def diagonal_matrix_def intro!: sum.neutral)

lemma selfadjoint_diag: "checkMatrixIsSelfAdjoined (diagonal_matrix xs)"
  by (simp add: checkMatrixIsSelfAdjoined_def isApprox_def squaredNorm_minus_adjoint_diag)
     (simp add: squaredNorm_def sum_nonneg)

text \<open>
  Claim C2 fails on the code.  \<open>setMatrix\<close> stores the eigenvalues and eigenvectors
  of the candidate before \<open>_checkMatrixIsDensityMatrix\<close> has run: when that check
  throws, the density matrix is the old one and the eigenvalues and eigenvectors are
  those of the rejected candidate.
\<close>

theorem setMatrix_throws_after_overwriting:
  assumes "checkMatrixIsSquare matr = None" "checkSpaceDimension matr (space s) = None"
    and "checkMatrixIsSelfAdjoined matr" "solver matr = Some (vals, vecs)"
    and "checkMatrixIsDensityMatrix (s\<lparr>eigenValues := vals, eigenVectors := vecs\<rparr>) matr = Some e"
  shows "setMatrix solver matr s = (Some e, s\<lparr>eigenValues := vals, eigenVectors := vecs\<rparr>)"
  using assms by (simp add: setMatrix_def calculateEigenValuesAndVectors_def)

text \<open>
  The state with density matrix diag(1, 0) on a space of dimension 2, and the
  candidate diag(2, 0), whose trace is 2: \<open>setMatrix\<close> throws and leaves the
  eigenvalues (2, 0) in the object.
\<close>

theorem setMatrix_throws_after_overwriting_witness:
  "setMatrix diagonal_solver (diagonal_matrix [2, 0])
     \<lparr>density = diagonal_matrix [1, 0],
      space = \<lparr>rank = 1, dimensions = [2], totalDim = 2\<rparr>,
      eigenValues = [1, 0], eigenVectors = diagonal_matrix [1, 1]\<rparr> =
   (Some InvalidArgument,
    \<lparr>density = diagonal_matrix [1, 0],
      space = \<lparr>rank = 1, dimensions = [2], totalDim = 2\<rparr>,
      eigenValues = [2, 0], eigenVectors = diagonal_matrix [1, 1]\<rparr>)"
  using setMatrix_throws_after_overwriting[of "diagonal_matrix [2, 0]"
      "\<lparr>density = diagonal_matrix [1, 0],
      space = \<lparr>rank = 1, dimensions = [2], totalDim = 2\<rparr>,
      eigenValues = [1, 0], eigenVectors = diagonal_matrix [1, 1]\<rparr>"
      diagonal_solver "[2, 0]" "diagonal_matrix [1, 1]" InvalidArgument]
  by (simp add: selfadjoint_diag checkMatrixIsSquare_def checkSpaceDimension_def
      totalDimension_def checkMatrixIsDensityMatrix_def trace_diag2 diagonal_solver_def)
     (simp add: diagonal_matrix_def numeral_2_eq_2)

lemma sn: "squaredNorm column_1_i = 2"
  by (simp add: squaredNorm_def column_1_i_def sum_lessThan_2)

lemma csqrt2: "complex_of_real (sqrt 2) * complex_of_real (sqrt 2) = 2"
proof -
  have "complex_of_real (sqrt 2) * complex_of_real (sqrt 2) = complex_of_real (sqrt 2 * sqrt 2)"
    by (simp only: of_real_mult)
  then show ?thesis by simp
qed

lemma d1: "coeff (mat_mult (normalize_m column_1_i) (transpose_m (normalize_m column_1_i))) i j =
   (if i = 0 then 1 else \<i>) * (if j = 0 then 1 else \<i>) / 2"
  by (simp add: mat_mult_def normalize_m_def transpose_m_def sn)
     (simp add: column_1_i_def csqrt2)

lemma d2: "rows (mat_mult (normalize_m column_1_i) (transpose_m (normalize_m column_1_i))) = 2"
   "cols (mat_mult (normalize_m column_1_i) (transpose_m (normalize_m column_1_i))) = 2"
  by (simp_all add: mat_mult_def normalize_m_def transpose_m_def column_1_i_def)

lemma d3: "\<not> checkMatrixIsSelfAdjoined (mat_mult (normalize_m column_1_i) (transpose_m (normalize_m column_1_i)))"
  by (simp add: checkMatrixIsSelfAdjoined_def isApprox_def squaredNorm_def mat_minus_def
      adjoint_def d1 d2 sum_lessThan_2 power2_eq_square)

text \<open>
  Claim C3 fails on the code for a complex vector.  The constructor multiplies the
  normalised column by its transpose, not by its adjoint; for the vector (1, \<open>\<i>\<close>) the
  product has \<open>\<i>\<close>/2 in both off-diagonal entries and is not self-adjoint, so
  \<open>_calculateEigenValuesAndVectors\<close> throws \<open>std::invalid_argument\<close>, whatever the
  eigen-solver and the space.
\<close>

theorem complex_vector_rejected:
  "QuantumState_ctor solver column_1_i sp = Inl InvalidArgument"
  by (simp add: QuantumState_ctor_def calculateEigenValuesAndVectors_def d3) (simp add: column_1_i_def)

section \<open>Properties of partialTrace\<close>

lemma foldl_update_upt:
  assumes "n \<le> length v"
  shows "foldl (\<lambda>w i. w[i := F i]) v [0..<n] = map F [0..<n] @ drop n v"
  using assms
proof (induction n)
  case 0
  then show ?case by simp
next
  case (Suc n)
  then have "foldl (\<lambda>w i. w[i := F i]) v [0..<Suc n] = (map F [0..<n] @ drop n v)[n := F n]"
    by simp
  also have "\<dots> = map F [0..<n] @ (drop n v)[0 := F n]"
    by (simp add: list_update_append)
  also have "(drop n v)[0 := F n] = F n # drop (Suc n) v"
    using Suc.prems by (simp add: Cons_nth_drop_Suc[symmetric])
  finally show ?case by simp
qed

lemma vecRightIndex_loop_eq:
  assumes "index < length L" "length R = length L - 1"
  shows "vecRightIndex_loop index L R = take index R @ [L ! index] @ drop index R"
proof -
  let ?F = "\<lambda>i. if i < index then R ! i else if i > index then R ! (i - 1) else L ! index"
  have "vecRightIndex_loop index L R = foldl (\<lambda>w i. w[i := ?F i]) L [0..<length L]"
    unfolding vecRightIndex_loop_def by (intro arg_cong[where f="\<lambda>f. foldl f L [0..<length L]"] ext) simp
  also have "\<dots> = map ?F [0..<length L]"
    by (simp add: foldl_update_upt)
  also have "\<dots> = take index R @ [L ! index] @ drop index R"
    using assms by (intro nth_equalityI) (auto simp: nth_append min_def)
  finally show ?thesis .
qed

lemma vecLeftRed_loop_eq:
  assumes "index < length L" "length R = length L - 1"
  shows "vecLeftRed_loop index L R = erase_at index L"
proof -
  let ?B = "\<lambda>w i. if i < index then w[i := L ! i]
              else if i > index then w[i - 1 := L ! i] else w"
  let ?G = "\<lambda>n. map (\<lambda>j. if j < index \<and> j < n then L ! j
                          else if index \<le> j \<and> Suc j < n then L ! Suc j else R ! j)
                   [0..<length R]"
  have inv: "foldl ?B R [0..<n] = ?G n" if "n \<le> length L" for n
    using that
  proof (induction n)
    case 0
    show ?case by (simp add: map_nth)
  next
    case (Suc n)
    then have "foldl ?B R [0..<Suc n] = ?B (?G n) n"
      by simp
    also have "\<dots> = ?G (Suc n)"
      using Suc.prems assms by (intro nth_equalityI) (auto simp: nth_list_update less_Suc_eq)
    finally show ?case .
  qed
  have "vecLeftRed_loop index L R = ?G (length L)"
    using inv[of "length L"] by (simp add: vecLeftRed_loop_def)
  also have "\<dots> = erase_at index L"
    using assms by (intro nth_equalityI) (auto simp: erase_at_def nth_append min_def)
  finally show ?thesis .
qed

lemma valid_digits_rev: "valid_digits (rev ds) (rev vs) \<longleftrightarrow> valid_digits ds vs"
proof -
  have a: "valid_digits (rev ds) (rev vs)" if v: "valid_digits ds vs" for ds vs :: "int list"
  proof -
    have len: "length vs = length ds"
      using v by (simp add: valid_digits_def)
    have "0 \<le> rev vs ! k \<and> rev vs ! k < rev ds ! k" if "k < length ds" for k
    proof -
      have "length ds - Suc k < length ds"
        using that by simp
      then show ?thesis
        using v that len by (simp add: valid_digits_def rev_nth)
    qed
    then show ?thesis
      using len by (simp add: valid_digits_def)
  qed
  show ?thesis
    using a[of ds vs] a[of "rev ds" "rev vs"] by auto
qed

lemma length_digits: "length (digits ds n) = length ds"
  by (simp add: digits_def length_encode)

lemma valid_digits_encode:
  assumes "\<forall>d\<in>set ds. 0 < d"
  shows "valid_digits ds (encode ds n)"
  using assms encode_digit_range[of ds _ n] by (simp add: valid_digits_def length_encode)

lemma valid_digits_digits:
  assumes "\<forall>d\<in>set ds. 0 < d"
  shows "valid_digits ds (digits ds n)"
proof -
  have "valid_digits (rev ds) (encode (rev ds) n)"
    using assms by (intro valid_digits_encode) simp
  then show ?thesis
    using valid_digits_rev[of ds "digits ds n"] by (simp add: digits_def)
qed

lemma decode_range:
  assumes "valid_digits ds vs" "\<forall>d\<in>set ds. 0 < d"
  shows "0 \<le> decode ds vs \<and> decode ds vs < prod_list ds"
  using assms
proof (induction ds vs rule: list_induct2')
  case (4 d ds v vs)
  have v: "0 \<le> v" "v < d"
    using "4.prems"(1) by (auto simp: valid_digits_def)
  have "valid_digits ds vs"
    using "4.prems"(1) by (auto simp: valid_digits_def)
  then have ih: "0 \<le> decode ds vs" "decode ds vs < prod_list ds"
    using 4 by auto
  have d: "0 < d"
    using "4.prems"(2) by simp
  have "d * decode ds vs \<le> d * (prod_list ds - 1)"
    using ih d by (intro mult_left_mono) auto
  then have "v + d * decode ds vs < d * prod_list ds"
    using v by (simp add: algebra_simps)
  moreover have "0 \<le> v + d * decode ds vs"
    using v ih d by simp
  ultimately show ?case by simp
qed (simp_all add: valid_digits_def)

lemma undigits_range:
  assumes "valid_digits ds vs" "\<forall>d\<in>set ds. 0 < d"
  shows "0 \<le> undigits ds vs \<and> undigits ds vs < prod_list ds"
proof -
  have "valid_digits (rev ds) (rev vs)"
    using assms(1) by (simp add: valid_digits_rev)
  then have "0 \<le> decode (rev ds) (rev vs) \<and> decode (rev ds) (rev vs) < prod_list (rev ds)"
    using assms(2) by (intro decode_range) simp_all
  then show ?thesis
    by (simp add: undigits_def prod_list_rev_int)
qed

lemma undigits_digits:
  assumes "\<forall>d\<in>set ds. 0 < d" "0 \<le> n" "n < prod_list ds"
  shows "undigits ds (digits ds n) = n"
proof -
  have "decode (rev ds) (encode (rev ds) n) = n mod prod_list (rev ds)"
    using assms(1,2) by (intro decode_encode) simp_all
  then show ?thesis
    using assms(2,3) by (simp add: undigits_def digits_def prod_list_rev_int)
qed

lemma digits_undigits:
  assumes "valid_digits ds vs"
  shows "digits ds (undigits ds vs) = vs"
proof -
  have v: "valid_digits (rev ds) (rev vs)"
    using assms by (simp add: valid_digits_rev)
  have "encode (rev ds) (decode (rev ds) (rev vs)) = rev vs"
    using v by (intro encode_decode) (simp_all add: valid_digits_def)
  then show ?thesis
    by (simp add: undigits_def digits_def)
qed

lemma erase_insert: "i \<le> length xs \<Longrightarrow> erase_at i (insert_at i x xs) = xs"
  by (simp add: erase_at_def insert_at_def min_def)

lemma insert_erase: "i < length xs \<Longrightarrow> insert_at i (xs ! i) (erase_at i xs) = xs"
  by (simp add: erase_at_def insert_at_def min_def id_take_nth_drop[symmetric])

lemma nth_insert_at: "i \<le> length xs \<Longrightarrow> insert_at i x xs ! i = x"
  by (simp add: insert_at_def nth_append)

lemma length_erase_at: "i < length xs \<Longrightarrow> length (erase_at i xs) = length xs - 1"
  by (simp add: erase_at_def)

lemma length_insert_at: "length (insert_at i x xs) = Suc (length xs)"
  by (simp add: insert_at_def)

lemma nth_erase_at:
  "i < length xs \<Longrightarrow> k < length xs - 1 \<Longrightarrow>
     erase_at i xs ! k = (if k < i then xs ! k else xs ! Suc k)"
  by (auto simp: erase_at_def nth_append min_def)

lemma valid_digits_erase:
  assumes "valid_digits ds vs" "i < length ds"
  shows "valid_digits (erase_at i ds) (erase_at i vs)"
  using assms by (auto simp: valid_digits_def length_erase_at nth_erase_at)

lemma valid_digits_insert:
  assumes "valid_digits (erase_at i ds) vs" "i < length ds" "0 \<le> k" "k < ds ! i"
  shows "valid_digits ds (insert_at i k vs)"
proof -
  have len: "length vs = length ds - 1"
    using assms(1,2) by (simp add: valid_digits_def length_erase_at)
  have "0 \<le> insert_at i k vs ! j \<and> insert_at i k vs ! j < ds ! j" if j: "j < length ds" for j
  proof (cases "j < i")
    case True
    then have "j < length ds - 1" using assms(2) by simp
    then have "0 \<le> vs ! j \<and> vs ! j < erase_at i ds ! j"
      using assms(1,2) by (simp add: valid_digits_def length_erase_at)
    then show ?thesis
      using True assms(2) len \<open>j < length ds - 1\<close>
      by (simp add: insert_at_def nth_append nth_erase_at)
  next
    case False
    show ?thesis
    proof (cases "j = i")
      case True
      then show ?thesis
        using assms len by (simp add: insert_at_def nth_append)
    next
      case False
      with \<open>\<not> j < i\<close> have gt: "i < j" by simp
      then have j1: "j - 1 < length ds - 1" using j by simp
      then have "0 \<le> vs ! (j - 1) \<and> vs ! (j - 1) < erase_at i ds ! (j - 1)"
        using assms(1,2) by (simp add: valid_digits_def length_erase_at)
      moreover have "erase_at i ds ! (j - 1) = ds ! j"
      proof -
        have "\<not> j - 1 < i" "Suc (j - 1) = j"
          using gt by simp_all
        then show ?thesis
          using nth_erase_at[of i ds "j - 1"] j1 assms(2) by simp
      qed
      moreover have "insert_at i k vs ! j = vs ! (j - 1)"
        using gt len assms(2) j by (simp add: insert_at_def nth_append min_def)
      ultimately show ?thesis by simp
    qed
  qed
  then show ?thesis
    using len assms(2) by (simp add: valid_digits_def length_insert_at)
qed

lemma idims_pos:
  assumes "wellformed s"
  shows "\<forall>d\<in>set (idims s). 0 < d"
  using assms by (auto simp: wellformed_def idims_def intro!: uint_pos)

lemma good_space_total:
  assumes "good_space s"
  shows "totalDimension s = prod_list (idims s)" "0 < prod_list (idims s)"
    "prod_list (idims s) < 2 ^ 31"
proof -
  show t: "totalDimension s = prod_list (idims s)"
    using assms by (simp add: good_space_def product_invariant_def idims_def)
  show "0 < prod_list (idims s)"
    using assms idims_pos[of s] by (intro prod_list_pos_int) (simp_all add: good_space_def)
  show "prod_list (idims s) < 2 ^ 31"
    using t sint_lt[of "totalDim s"] by (simp add: totalDimension_def)
qed

lemma sint_of_nat_small:
  assumes "int n < 2 ^ 31"
  shows "sint (of_nat n :: 32 word) = int n"
proof -
  have "sint (word_of_int (int n) :: 32 word) = int n"
    using assms by (intro sint_word_of_int_small) simp_all
  then show ?thesis by simp
qed

lemma getVector_digits:
  assumes "good_space s" "int n < prod_list (idims s)"
  shows "getVector s (of_nat n) = digits (idims s) (int n)"
proof -
  have "int n < 2 ^ 31"
    using assms good_space_total(3)[OF assms(1)] by linarith
  then have sn: "sint (of_nat n :: 32 word) = int n"
    by (rule sint_of_nat_small)
  have "wellformed s"
    using assms(1) by (simp add: good_space_def)
  then show ?thesis
    using getVector_encode[of s "of_nat n"] sn by (simp add: digits_def idims_def)
qed

lemma getIndex_undigits:
  assumes "good_space s" "dimensions s \<noteq> []" "valid_digits (idims s) vec"
  shows "getIndex s vec = Inr (undigits (idims s) vec)"
proof -
  have wf: "wellformed s"
    using assms(1) by (simp add: good_space_def)
  then have r: "rank s = int (length (dimensions s))"
    by (simp add: wellformed_def)
  have len: "length vec = length (dimensions s)"
    using assms(3) by (simp add: valid_digits_def idims_def)
  have "decode (rev (dimensions s)) (rev (map word_of_int vec)) =
      (decode (map word_of_int (rev (idims s))) (map word_of_int (rev vec)) :: 32 word)"
    by (simp add: idims_def rev_map o_def)
  also have "\<dots> = word_of_int (undigits (idims s) vec)"
    by (simp add: word_of_int_decode undigits_def)
  finally have "getIndex s vec = Inr (sint (word_of_int (undigits (idims s) vec) :: 32 word))"
    using getIndex_decode[OF r len assms(2)] by simp
  moreover have "0 \<le> undigits (idims s) vec \<and> undigits (idims s) vec < prod_list (idims s)"
    using assms(3) idims_pos[OF wf] by (rule undigits_range)
  ultimately show ?thesis
    using good_space_total(3)[OF assms(1)] by (simp add: sint_word_of_int_small)
qed

lemma prod_list_erase_at:
  fixes ds :: "int list"
  assumes "t < length ds"
  shows "prod_list ds = ds ! t * prod_list (erase_at t ds)"
proof -
  have "ds = take t ds @ ds ! t # drop (Suc t) ds"
    using assms by (rule id_take_nth_drop)
  then have "prod_list ds = prod_list (take t ds @ ds ! t # drop (Suc t) ds)"
    by simp
  then show ?thesis
    by (simp add: erase_at_def)
qed

lemma map_erase_at: "map f (erase_at t xs) = erase_at t (map f xs)"
  by (simp add: erase_at_def take_map drop_map)

lemma set_erase_at: "set (erase_at t xs) \<subseteq> set xs"
  by (auto simp: erase_at_def dest: in_set_takeD in_set_dropD)

lemma reduced_space_ctor:
  assumes "wellformed s"
  shows "HilbertSpace_dims (erase_at t (dimensions s)) = Inr (reduced_space s t)"
proof -
  have "0 \<notin> set (erase_at t (dimensions s))"
    using assms set_erase_at[of t "dimensions s"] by (auto simp: wellformed_def)
  then show ?thesis
    by (simp add: HilbertSpace_dims_eq reduced_space_def)
qed

lemma idims_reduced_space: "idims (reduced_space s t) = erase_at t (idims s)"
  by (simp add: idims_def reduced_space_def map_erase_at)

lemma good_reduced_space:
  assumes "good_space s" "t < length (dimensions s)"
  shows "good_space (reduced_space s t)"
    and "prod_list (idims s) = idims s ! t * prod_list (idims (reduced_space s t))"
proof -
  have wf: "wellformed s"
    using assms(1) by (simp add: good_space_def)
  have tl: "t < length (idims s)"
    using assms(2) by (simp add: idims_def)
  show e: "prod_list (idims s) = idims s ! t * prod_list (idims (reduced_space s t))"
    using tl by (simp add: idims_reduced_space prod_list_erase_at)
  have wf': "wellformed (reduced_space s t)"
    using reduced_space_ctor[OF wf, of t] by (rule wellformed_dims)
  have pos': "0 < prod_list (idims (reduced_space s t))"
    using idims_pos[OF wf'] by (rule prod_list_pos_int)
  have dt: "1 \<le> idims s ! t"
    using idims_pos[OF wf] tl by (metis nth_mem int_one_le_iff_zero_less)
  have "1 * prod_list (idims (reduced_space s t)) \<le> idims s ! t * prod_list (idims (reduced_space s t))"
    using dt pos' by (intro mult_right_mono) simp_all
  then have "prod_list (idims (reduced_space s t)) < 2 ^ 31"
    using e good_space_total(3)[OF assms(1)] by simp
  then have "product_invariant (reduced_space s t)"
    using product_invariant32_exact[of "reduced_space s t"]
    by (simp add: product_invariant32_def reduced_space_def idims_def)
  then show "good_space (reduced_space s t)"
    using wf' by (simp add: good_space_def)
qed

lemma bracket_coeff:
  assumes "rows m = n" "cols m = n" "a < n" "b < n"
  shows "coeff (mat_mult (mat_mult
            (transpose_m \<lparr>rows = n, cols = 1, coeff = (\<lambda>i j. if int i = int a then 1 else 0)\<rparr>) m)
            \<lparr>rows = n, cols = 1, coeff = (\<lambda>i j. if int i = int b then 1 else 0)\<rparr>) 0 0 =
         coeff m a b"
proof -
  have inner: "(\<Sum>k<n. (if k = a then 1 else 0) * coeff m k j) = coeff m a j" for j
    using assms(3) by (simp add: sum.delta if_distrib[of "\<lambda>x. x * _"] cong: if_cong)
  have "(\<Sum>k<n. coeff m a k * (if k = b then 1 else 0)) = coeff m a b"
    using assms(4) by (simp add: sum.delta if_distrib[of "\<lambda>x. _ * x"] cong: if_cong)
  then show ?thesis
    using assms(1,2) by (simp add: mat_mult_def transpose_m_def inner)
qed

lemma partialTrace_body_eq:
  assumes vs: "valid_state s"
    and t: "t < length (dimensions (space s))"
    and r2: "2 \<le> length (dimensions (space s))"
    and row: "int row < prod_list (idims (space s))"
    and col: "int col < prod_list (idims (reduced_space (space s) t))"
    and res: "rows res = nat (prod_list (idims (reduced_space (space s) t)))"
      "cols res = nat (prod_list (idims (reduced_space (space s) t)))"
  shows "partialTrace_body s t (reduced_space (space s) t) row col res =
     Inr (add_coeff (reduced_index (space s) t row) col
            (coeff (density s) row (full_index (space s) t col (digit_at (space s) t row))) res)"
proof -
  let ?S = "space s"
  let ?S' = "reduced_space ?S t"
  let ?ds = "idims ?S"
  let ?ds' = "erase_at t ?ds"
  let ?N = "prod_list ?ds"
  let ?N' = "prod_list ?ds'"
  let ?L = "digits ?ds (int row)"
  let ?R = "digits ?ds' (int col)"
  have gs: "good_space ?S"
    using vs by (simp add: valid_state_def)
  have wf: "wellformed ?S"
    using gs by (simp add: good_space_def)
  have gs': "good_space ?S'"
    using gs t by (rule good_reduced_space(1))
  have ids': "idims ?S' = ?ds'"
    by (rule idims_reduced_space)
  have tl: "t < length ?ds"
    using t by (simp add: idims_def)
  have pos: "\<forall>d\<in>set ?ds. 0 < d"
    using wf by (rule idims_pos)
  have pos': "\<forall>d\<in>set ?ds'. 0 < d"
    using pos set_erase_at[of t ?ds] by auto
  have tot: "totalDimension ?S = ?N"
    using gs by (rule good_space_total(1))
  have ne: "dimensions ?S \<noteq> []"
    using t by auto
  have ne': "dimensions ?S' \<noteq> []"
    using r2 t by (auto simp: reduced_space_def erase_at_def)
  have gvL: "getVector ?S (of_nat row) = ?L"
    using gs row by (rule getVector_digits)
  have gvR: "getVector ?S' (of_nat col) = ?R"
    using getVector_digits[OF gs' col] by (simp add: ids')
  have vL: "valid_digits ?ds ?L"
    using pos by (rule valid_digits_digits)
  have vR: "valid_digits ?ds' ?R"
    using pos' by (rule valid_digits_digits)
  have lenL: "length ?L = length ?ds" and lenR: "length ?R = length ?ds - 1"
    using tl by (simp_all add: length_digits length_erase_at)
  have Lt: "0 \<le> ?L ! t" "?L ! t < ?ds ! t"
    using vL tl by (simp_all add: valid_digits_def)
  have ri: "vecRightIndex_loop t ?L ?R = insert_at t (?L ! t) ?R"
    using tl lenL lenR by (simp add: vecRightIndex_loop_eq insert_at_def)
  have lr: "vecLeftRed_loop t ?L ?R = erase_at t ?L"
    using tl lenL lenR by (simp add: vecLeftRed_loop_eq)
  have vRI: "valid_digits ?ds (insert_at t (?L ! t) ?R)"
    using vR tl Lt by (rule valid_digits_insert)
  have vLR: "valid_digits ?ds' (erase_at t ?L)"
    using vL tl by (rule valid_digits_erase)
  have giL: "getIndex ?S ?L = Inr (int row)"
    using getIndex_undigits[OF gs ne vL] undigits_digits[OF pos _ row] by simp
  let ?g = "undigits ?ds (insert_at t (?L ! t) ?R)"
  have giRI: "getIndex ?S (insert_at t (?L ! t) ?R) = Inr ?g"
    using gs ne vRI by (rule getIndex_undigits)
  have g: "0 \<le> ?g" "?g < ?N"
    using undigits_range[OF vRI pos] by simp_all
  let ?a = "undigits ?ds' (erase_at t ?L)"
  have giLR: "getIndex ?S' (erase_at t ?L) = Inr ?a"
    using getIndex_undigits[OF gs' ne'] vLR by (simp add: ids')
  have a: "0 \<le> ?a" "?a < ?N'"
    using undigits_range[OF vLR pos'] by simp_all
  have giR: "getIndex ?S' ?R = Inr (int col)"
    using getIndex_undigits[OF gs' ne'] vR undigits_digits[OF pos' _] col by (simp add: ids')
  have rho: "rows (density s) = nat ?N" "cols (density s) = nat ?N"
    using vs tot by (simp_all add: valid_state_def)
  have bl: "getBasisVector ?S ?L =
      Inr \<lparr>rows = nat ?N, cols = 1, coeff = (\<lambda>i j. if int i = int row then 1 else 0)\<rparr>"
    by (simp add: getBasisVector_def giL tot)
  have br: "getBasisVector ?S (insert_at t (?L ! t) ?R) =
      Inr \<lparr>rows = nat ?N, cols = 1, coeff = (\<lambda>i j. if int i = int (nat ?g) then 1 else 0)\<rparr>"
    using g(1) by (simp add: getBasisVector_def giRI tot)
  have coef: "coeff (mat_mult (mat_mult
            (transpose_m \<lparr>rows = nat ?N, cols = 1, coeff = (\<lambda>i j. if int i = int row then 1 else 0)\<rparr>)
            (density s))
            \<lparr>rows = nat ?N, cols = 1, coeff = (\<lambda>i j. if int i = int (nat ?g) then 1 else 0)\<rparr>) 0 0 =
         coeff (density s) row (nat ?g)"
    using rho row g by (intro bracket_coeff) simp_all
  have fi: "full_index ?S t col (digit_at ?S t row) = nat ?g"
    using Lt(1) by (simp add: full_index_def digit_at_def)
  have redi: "reduced_index ?S t row = nat ?a"
    by (simp add: reduced_index_def)
  have guard: "0 \<le> ?a \<and> nat ?a < rows res \<and> 0 \<le> int col \<and> nat (int col) < cols res"
    using a col res by (simp add: ids')
  have "partialTrace_body s t ?S' row col res =
      (if 0 \<le> ?a \<and> nat ?a < rows res \<and> 0 \<le> int col \<and> nat (int col) < cols res
       then Inr (res\<lparr>coeff := (coeff res)(nat ?a := (coeff res (nat ?a))
              (nat (int col) := coeff res (nat ?a) (nat (int col)) + coeff (density s) row (nat ?g)))\<rparr>)
       else Inl OutOfBounds)"
    by (simp only: partialTrace_body_def Let_def gvL gvR ri lr bl br sum.case giLR giR coef)
  then show ?thesis
    using guard by (simp add: add_coeff_def fi redi)
qed

lemma add_coeff_simps:
  "rows (add_coeff a b c res) = rows res"
  "cols (add_coeff a b c res) = cols res"
  "coeff (add_coeff a b c res) x y = coeff res x y + (if x = a \<and> y = b then c else 0)"
  by (simp_all add: add_coeff_def)

lemma partialTrace_cols_eq:
  assumes vs: "valid_state s"
    and t: "t < length (dimensions (space s))"
    and r2: "2 \<le> length (dimensions (space s))"
    and row: "int row < prod_list (idims (space s))"
    and cs: "\<forall>c\<in>set cs. int c < prod_list (idims (reduced_space (space s) t))" "distinct cs"
    and res: "rows res = nat (prod_list (idims (reduced_space (space s) t)))"
      "cols res = nat (prod_list (idims (reduced_space (space s) t)))"
  shows "\<exists>res'. partialTrace_cols s t (reduced_space (space s) t) row cs res = Inr res' \<and>
     rows res' = rows res \<and> cols res' = cols res \<and>
     (\<forall>x y. coeff res' x y = coeff res x y +
        (if x = reduced_index (space s) t row \<and> y \<in> set cs
         then coeff (density s) row (full_index (space s) t y (digit_at (space s) t row))
         else 0))"
  using cs res
proof (induction cs arbitrary: res)
  case Nil
  then show ?case by simp
next
  case (Cons c cs)
  let ?A = "reduced_index (space s) t row"
  let ?f = "\<lambda>y. coeff (density s) row (full_index (space s) t y (digit_at (space s) t row))"
  let ?res1 = "add_coeff ?A c (?f c) res"
  have c: "int c < prod_list (idims (reduced_space (space s) t))"
    using Cons.prems(1) by simp
  have b: "partialTrace_body s t (reduced_space (space s) t) row c res = Inr ?res1"
    using vs t r2 row c Cons.prems(3,4) by (rule partialTrace_body_eq)
  have "\<exists>res'. partialTrace_cols s t (reduced_space (space s) t) row cs ?res1 = Inr res' \<and>
     rows res' = rows ?res1 \<and> cols res' = cols ?res1 \<and>
     (\<forall>x y. coeff res' x y = coeff ?res1 x y + (if x = ?A \<and> y \<in> set cs then ?f y else 0))"
    using Cons.prems by (intro Cons.IH) (simp_all add: add_coeff_simps)
  then obtain res' where r: "partialTrace_cols s t (reduced_space (space s) t) row cs ?res1 = Inr res'"
    "rows res' = rows ?res1" "cols res' = cols ?res1"
    "\<forall>x y. coeff res' x y = coeff ?res1 x y + (if x = ?A \<and> y \<in> set cs then ?f y else 0)"
    by blast
  have "c \<notin> set cs"
    using Cons.prems(2) by simp
  then have "\<forall>x y. coeff res' x y = coeff res x y + (if x = ?A \<and> y \<in> set (c # cs) then ?f y else 0)"
    using r(4) by (auto simp: add_coeff_simps)
  then show ?case
    using b r(1,2,3) by (simp add: add_coeff_simps)
qed

lemma int_div_pos: "0 < a \<Longrightarrow> 0 < b \<Longrightarrow> int_div a b = a div b"
  by (simp add: int_div_def)

lemma dimension_good:
  assumes "good_space s" "t < length (dimensions s)"
  shows "dimension s (int t) = Inr (idims s ! t)"
proof -
  have wf: "wellformed s"
    using assms(1) by (simp add: good_space_def)
  have tl: "t < length (idims s)"
    using assms(2) by (simp add: idims_def)
  have "idims s ! t \<le> prod_list (idims s)"
    using idims_pos[OF wf] tl by (intro member_le_prod_list) auto
  then have "uint (dimensions s ! t) < 2 ^ 31"
    using good_space_total(3)[OF assms(1)] assms(2) by (simp add: idims_def)
  then have "sint (dimensions s ! t) = uint (dimensions s ! t)"
    by (rule sint_eq_uint_small)
  then show ?thesis
    using assms(2) wf by (simp add: dimension_def wellformed_def idims_def)
qed

lemma partialTrace_rows_eq:
  assumes vs: "valid_state s"
    and t: "t < length (dimensions (space s))"
    and r2: "2 \<le> length (dimensions (space s))"
    and rs: "\<forall>row\<in>set rs. int row < prod_list (idims (space s))" "distinct rs"
    and res: "rows res = nat (prod_list (idims (reduced_space (space s) t)))"
      "cols res = nat (prod_list (idims (reduced_space (space s) t)))"
  shows "\<exists>res'. partialTrace_rows s t (reduced_space (space s) t) rs res = Inr res' \<and>
     rows res' = rows res \<and> cols res' = cols res \<and>
     (\<forall>x y. coeff res' x y = coeff res x y +
        (\<Sum>row\<in>set rs.
           if x = reduced_index (space s) t row \<and>
              y < nat (prod_list (idims (reduced_space (space s) t)))
           then coeff (density s) row (full_index (space s) t y (digit_at (space s) t row))
           else 0))"
  using rs res
proof (induction rs arbitrary: res)
  case Nil
  then show ?case by simp
next
  case (Cons row rs)
  let ?S = "space s"
  let ?S' = "reduced_space ?S t"
  let ?N' = "prod_list (idims ?S')"
  let ?g = "\<lambda>row x y. if x = reduced_index ?S t row \<and> y < nat ?N'
           then coeff (density s) row (full_index ?S t y (digit_at ?S t row)) else 0"
  have gs: "good_space ?S"
    using vs by (simp add: valid_state_def)
  have tl: "t < length (idims ?S)"
    using t by (simp add: idims_def)
  have dt: "0 < idims ?S ! t"
    using idims_pos[of ?S] gs tl by (simp add: good_space_def)
  have N': "0 < ?N'"
    using good_space_total(2)[OF good_reduced_space(1)[OF gs t]] .
  have "int_div (totalDimension ?S) (idims ?S ! t) = ?N'"
    using good_reduced_space(2)[OF gs t] good_space_total(1,2)[OF gs] dt N'
    by (simp add: int_div_pos)
  then have bound: "[0..<nat (int_div (totalDimension ?S) (idims ?S ! t))] = [0..<nat ?N']"
    by simp
  have row: "int row < prod_list (idims ?S)"
    using Cons.prems(1) by simp
  have "\<exists>res1. partialTrace_cols s t ?S' row [0..<nat ?N'] res = Inr res1 \<and>
     rows res1 = rows res \<and> cols res1 = cols res \<and>
     (\<forall>x y. coeff res1 x y = coeff res x y +
        (if x = reduced_index ?S t row \<and> y \<in> set [0..<nat ?N']
         then coeff (density s) row (full_index ?S t y (digit_at ?S t row))
         else 0))"
    using vs t r2 row _ _ Cons.prems(3,4) by (rule partialTrace_cols_eq) auto
  then obtain res1 where r1: "partialTrace_cols s t ?S' row [0..<nat ?N'] res = Inr res1"
    "rows res1 = rows res" "cols res1 = cols res"
    "\<forall>x y. coeff res1 x y = coeff res x y + ?g row x y"
    by auto
  have "\<exists>res'. partialTrace_rows s t ?S' rs res1 = Inr res' \<and>
     rows res' = rows res1 \<and> cols res' = cols res1 \<and>
     (\<forall>x y. coeff res' x y = coeff res1 x y + (\<Sum>row\<in>set rs. ?g row x y))"
    using Cons.prems r1(2,3) by (intro Cons.IH) simp_all
  then obtain res' where r: "partialTrace_rows s t ?S' rs res1 = Inr res'"
    "rows res' = rows res1" "cols res' = cols res1"
    "\<forall>x y. coeff res' x y = coeff res1 x y + (\<Sum>row\<in>set rs. ?g row x y)"
    by blast
  have "row \<notin> set rs"
    using Cons.prems(2) by simp
  then have "(\<Sum>r\<in>set (row # rs). ?g r x y) = ?g row x y + (\<Sum>r\<in>set rs. ?g r x y)" for x y
    by simp
  then have "\<forall>x y. coeff res' x y = coeff res x y + (\<Sum>r\<in>set (row # rs). ?g r x y)"
    using r(4) r1(4) by (simp add: add.assoc)
  moreover have "partialTrace_rows s t ?S' (row # rs) res = Inr res'"
    using dimension_good[OF gs t] bound r1(1) r(1) by simp
  ultimately show ?case
    using r(2,3) r1(2,3) by simp
qed

lemma full_index_props:
  assumes gs: "good_space s" and t: "t < length (dimensions s)"
    and x: "int x < prod_list (idims (reduced_space s t))"
    and k: "int k < idims s ! t"
  shows "int (full_index s t x k) < prod_list (idims s)"
    and "reduced_index s t (full_index s t x k) = x"
    and "digit_at s t (full_index s t x k) = k"
    and "digits (idims s) (int (full_index s t x k)) =
         insert_at t (int k) (digits (erase_at t (idims s)) (int x))"
proof -
  let ?ds = "idims s"
  let ?ds' = "erase_at t ?ds"
  let ?V = "insert_at t (int k) (digits ?ds' (int x))"
  have wf: "wellformed s"
    using gs by (simp add: good_space_def)
  have tl: "t < length ?ds"
    using t by (simp add: idims_def)
  have pos: "\<forall>d\<in>set ?ds. 0 < d"
    using wf by (rule idims_pos)
  have pos': "\<forall>d\<in>set ?ds'. 0 < d"
    using pos set_erase_at[of t ?ds] by auto
  have x': "int x < prod_list ?ds'"
    using x by (simp add: idims_reduced_space)
  have vR: "valid_digits ?ds' (digits ?ds' (int x))"
    using pos' by (rule valid_digits_digits)
  have vV: "valid_digits ?ds ?V"
    using vR tl _ k by (rule valid_digits_insert) simp
  have u: "0 \<le> undigits ?ds ?V" "undigits ?ds ?V < prod_list ?ds"
    using undigits_range[OF vV pos] by simp_all
  have fi: "int (full_index s t x k) = undigits ?ds ?V"
    using u(1) by (simp add: full_index_def)
  show "int (full_index s t x k) < prod_list ?ds"
    using u(2) fi by simp
  show dg: "digits ?ds (int (full_index s t x k)) = ?V"
    using digits_undigits[OF vV] fi by simp
  have lenR: "length (digits ?ds' (int x)) = length ?ds - 1"
    using tl by (simp add: length_digits length_erase_at)
  then have tle: "t \<le> length (digits ?ds' (int x))"
    using tl by simp
  show "digit_at s t (full_index s t x k) = k"
    using tle by (simp add: digit_at_def dg nth_insert_at)
  have "erase_at t ?V = digits ?ds' (int x)"
    using tle by (rule erase_insert)
  then have "undigits ?ds' (erase_at t ?V) = int x"
    using undigits_digits[OF pos' _ x'] by simp
  then show "reduced_index s t (full_index s t x k) = x"
    by (simp add: reduced_index_def dg)
qed

lemma row_index_props:
  assumes gs: "good_space s" and t: "t < length (dimensions s)"
    and row: "int row < prod_list (idims s)"
  shows "int (digit_at s t row) < idims s ! t"
    and "int (reduced_index s t row) < prod_list (idims (reduced_space s t))"
    and "full_index s t (reduced_index s t row) (digit_at s t row) = row"
proof -
  let ?ds = "idims s"
  let ?ds' = "erase_at t ?ds"
  let ?L = "digits ?ds (int row)"
  have wf: "wellformed s"
    using gs by (simp add: good_space_def)
  have tl: "t < length ?ds"
    using t by (simp add: idims_def)
  have pos: "\<forall>d\<in>set ?ds. 0 < d"
    using wf by (rule idims_pos)
  have pos': "\<forall>d\<in>set ?ds'. 0 < d"
    using pos set_erase_at[of t ?ds] by auto
  have vL: "valid_digits ?ds ?L"
    using pos by (rule valid_digits_digits)
  have Lt: "0 \<le> ?L ! t" "?L ! t < ?ds ! t"
    using vL tl by (simp_all add: valid_digits_def)
  show "int (digit_at s t row) < ?ds ! t"
    using Lt by (simp add: digit_at_def)
  have vLR: "valid_digits ?ds' (erase_at t ?L)"
    using vL tl by (rule valid_digits_erase)
  have a: "0 \<le> undigits ?ds' (erase_at t ?L)" "undigits ?ds' (erase_at t ?L) < prod_list ?ds'"
    using undigits_range[OF vLR pos'] by simp_all
  show "int (reduced_index s t row) < prod_list (idims (reduced_space s t))"
    using a by (simp add: reduced_index_def idims_reduced_space)
  have "digits ?ds' (int (reduced_index s t row)) = erase_at t ?L"
    using a(1) digits_undigits[OF vLR] by (simp add: reduced_index_def)
  moreover have "int (digit_at s t row) = ?L ! t"
    using Lt(1) by (simp add: digit_at_def)
  moreover have "insert_at t (?L ! t) (erase_at t ?L) = ?L"
    using tl by (intro insert_erase) (simp add: length_digits)
  moreover have "undigits ?ds ?L = int row"
    using pos _ row by (rule undigits_digits) simp
  ultimately show "full_index s t (reduced_index s t row) (digit_at s t row) = row"
    by (simp add: full_index_def)
qed

lemma sum_over_rows_reindex:
  fixes h :: "nat \<Rightarrow> nat \<Rightarrow> complex"
  assumes gs: "good_space s" and t: "t < length (dimensions s)"
    and x: "int x < prod_list (idims (reduced_space s t))"
  shows "(\<Sum>row\<in>{0..<nat (prod_list (idims s))}.
            if x = reduced_index s t row then h row (digit_at s t row) else 0) =
         (\<Sum>k<nat (idims s ! t). h (full_index s t x k) k)"
proof -
  let ?N = "nat (prod_list (idims s))"
  let ?d = "nat (idims s ! t)"
  have "(\<Sum>row\<in>{0..<?N}. if x = reduced_index s t row then h row (digit_at s t row) else 0) =
        (\<Sum>row\<in>{row \<in> {0..<?N}. x = reduced_index s t row}. h row (digit_at s t row))"
    by (rule sum.inter_filter[symmetric]) simp
  also have "\<dots> = (\<Sum>k\<in>{..<?d}. h (full_index s t x k) k)"
  proof (rule sum.reindex_bij_witness[where i = "\<lambda>k. full_index s t x k" and j = "digit_at s t"])
    fix row
    assume "row \<in> {row \<in> {0..<?N}. x = reduced_index s t row}"
    then have r: "int row < prod_list (idims s)" and xr: "x = reduced_index s t row"
      by auto
    show "full_index s t x (digit_at s t row) = row"
      using row_index_props(3)[OF gs t r] xr by simp
    show "digit_at s t row \<in> {..<?d}"
      using row_index_props(1)[OF gs t r] by simp
    show "h (full_index s t x (digit_at s t row)) (digit_at s t row) = h row (digit_at s t row)"
      using row_index_props(3)[OF gs t r] xr by simp
  next
    fix k
    assume "k \<in> {..<?d}"
    then have k: "int k < idims s ! t"
      by simp
    show "digit_at s t (full_index s t x k) = k"
      using gs t x k by (rule full_index_props(3))
    show "full_index s t x k \<in> {row \<in> {0..<?N}. x = reduced_index s t row}"
      using full_index_props(1,2)[OF gs t x k] by simp
  qed
  finally show ?thesis .
qed

lemma partialTrace_matrix_eq:
  assumes vs: "valid_state s"
    and t: "t < length (dimensions (space s))"
    and r2: "2 \<le> length (dimensions (space s))"
  shows "\<exists>res. partialTrace_matrix s t = Inr (reduced_space (space s) t, res) \<and>
     rows res = nat (prod_list (idims (reduced_space (space s) t))) \<and>
     cols res = nat (prod_list (idims (reduced_space (space s) t))) \<and>
     (\<forall>x<nat (prod_list (idims (reduced_space (space s) t))).
      \<forall>y<nat (prod_list (idims (reduced_space (space s) t))).
        coeff res x y =
          (\<Sum>k<nat (idims (space s) ! t).
             coeff (density s) (full_index (space s) t x k) (full_index (space s) t y k)))"
proof -
  let ?S = "space s"
  let ?S' = "reduced_space ?S t"
  let ?N = "prod_list (idims ?S)"
  let ?N' = "prod_list (idims ?S')"
  let ?res0 = "setZero (nat ?N') (nat ?N')"
  let ?g = "\<lambda>row x y. if x = reduced_index ?S t row \<and> y < nat ?N'
           then coeff (density s) row (full_index ?S t y (digit_at ?S t row)) else 0"
  have gs: "good_space ?S"
    using vs by (simp add: valid_state_def)
  have wf: "wellformed ?S"
    using gs by (simp add: good_space_def)
  have gs': "good_space ?S'"
    using gs t by (rule good_reduced_space(1))
  have tot: "totalDimension ?S = ?N" and tot': "totalDimension ?S' = ?N'"
    using good_space_total(1)[OF gs] good_space_total(1)[OF gs'] by simp_all
  have "\<exists>res'. partialTrace_rows s t ?S' [0..<nat ?N] ?res0 = Inr res' \<and>
     rows res' = rows ?res0 \<and> cols res' = cols ?res0 \<and>
     (\<forall>x y. coeff res' x y = coeff ?res0 x y + (\<Sum>row\<in>set [0..<nat ?N]. ?g row x y))"
    using vs t r2 by (rule partialTrace_rows_eq) (auto simp: setZero_def)
  then obtain res where r: "partialTrace_rows s t ?S' [0..<nat ?N] ?res0 = Inr res"
    "rows res = nat ?N'" "cols res = nat ?N'"
    "\<forall>x y. coeff res x y = (\<Sum>row\<in>{0..<nat ?N}. ?g row x y)"
    by (auto simp: setZero_def)
  have "coeff res x y =
      (\<Sum>k<nat (idims ?S ! t). coeff (density s) (full_index ?S t x k) (full_index ?S t y k))"
    if x: "x < nat ?N'" and y: "y < nat ?N'" for x y
  proof -
    have "coeff res x y = (\<Sum>row\<in>{0..<nat ?N}.
        if x = reduced_index ?S t row
        then coeff (density s) row (full_index ?S t y (digit_at ?S t row)) else 0)"
      using r(4) y by simp
    also have "\<dots> = (\<Sum>k<nat (idims ?S ! t).
        coeff (density s) (full_index ?S t x k) (full_index ?S t y k))"
      using gs t by (rule sum_over_rows_reindex) (use x in simp)
    finally show ?thesis .
  qed
  moreover have "partialTrace_matrix s t = Inr (?S', res)"
    using reduced_space_ctor[OF wf, of t] r(1) by (simp add: partialTrace_matrix_def tot tot')
  ultimately show ?thesis
    using r(2,3) by blast
qed



lemma length_2_cases: "length xs = 2 \<Longrightarrow> \<exists>a b. xs = [a, b]"
  by (auto simp: numeral_2_eq_2 length_Suc_conv)



lemma trace_diagonal_matrix: "trace_m (diagonal_matrix xs) = complex_of_real (sum_list xs)"
proof -
  have "trace_m (diagonal_matrix xs) = (\<Sum>i<length xs. complex_of_real (xs ! i))"
    by (simp add: trace_m_def diagonal_matrix_def)
  also have "\<dots> = complex_of_real (\<Sum>i<length xs. xs ! i)"
    by simp
  also have "(\<Sum>i<length xs. xs ! i) = sum_list xs"
    by (simp add: sum_list_sum_nth atLeast0LessThan)
  finally show ?thesis .
qed

lemma squaredNorm_nonneg: "0 \<le> squaredNorm m"
  by (simp add: squaredNorm_def sum_nonneg)

lemma selfadjoint_real_diagonal:
  assumes "\<forall>x<rows m. \<forall>y<cols m. coeff m x y = (if x = y then complex_of_real (d x) else 0)"
    and "cols m = rows m"
  shows "checkMatrixIsSelfAdjoined m"
proof -
  have "squaredNorm (mat_minus m (adjoint m)) = 0"
    using assms by (auto simp: squaredNorm_def mat_minus_def adjoint_def intro!: sum.neutral)
  then show ?thesis
    using squaredNorm_nonneg[of m] squaredNorm_nonneg[of "adjoint m"]
    by (simp add: checkMatrixIsSelfAdjoined_def isApprox_def)
qed

lemma ctor_rejects_negative_diagonal:
  assumes "rows m = 2" "cols m = 2"
    and "\<forall>x<2. \<forall>y<2. coeff m x y = (if x = y then complex_of_real (d x) else 0)"
    and "d 0 < - (1 / 10 ^ 15)"
  shows "QuantumState_ctor diagonal_solver m sp = Inl InvalidArgument"
proof -
  have sa: "checkMatrixIsSelfAdjoined m"
    using assms(1,2,3) by (intro selfadjoint_real_diagonal[where d = d]) simp_all
  have m00: "coeff m 0 0 = complex_of_real (d 0)"
    using assms(3) by simp
  have "diagonal_solver m = Some ([d 0, Re (coeff m 1 1)], diagonal_matrix [1, 1])"
    using assms(1) m00 by (simp add: diagonal_solver_def numeral_2_eq_2)
  then show ?thesis
    using assms(1,2,4) sa
    by (simp add: QuantumState_ctor_def checkMatrixIsSquare_def
        calculateEigenValuesAndVectors_def checkMatrixIsDensityMatrix_def)
qed

lemma ctor_accepts_diagonal:
  assumes "length xs \<noteq> 1" "\<forall>v\<in>set xs. - (1 / 10 ^ 15) \<le> v" "\<bar>sum_list xs - 1\<bar> \<le> 1 / 10 ^ 15"
    and "totalDimension sp = int (length xs)"
  shows "QuantumState_ctor diagonal_solver (diagonal_matrix xs) sp =
     Inr \<lparr>density = diagonal_matrix xs, space = sp, eigenValues = xs,
          eigenVectors = diagonal_matrix (replicate (length xs) 1)\<rparr>"
proof -
  let ?m = "diagonal_matrix xs"
  have rc: "rows ?m = length xs" "cols ?m = length xs"
    by (simp_all add: diagonal_matrix_def)
  have "map (\<lambda>i. Re (coeff ?m i i)) [0..<length xs] = xs"
    by (intro nth_equalityI) (simp_all add: diagonal_matrix_def)
  then have ds: "diagonal_solver ?m = Some (xs, diagonal_matrix (replicate (length xs) 1))"
    by (simp add: diagonal_solver_def rc)
  have ev: "\<not> list_ex (\<lambda>v. \<bar>v\<bar> > 1 / 10 ^ 15 \<and> v < 0) xs"
    using assms(2) by (auto simp: list_ex_iff)
  have "trace_m ?m - 1 = complex_of_real (sum_list xs - 1)"
    by (simp add: trace_diagonal_matrix)
  then have tr: "cmod (trace_m ?m - 1) = \<bar>sum_list xs - 1\<bar>"
    by (simp only: norm_of_real)
  show ?thesis
    using assms(1,3,4) ev
    by (simp add: QuantumState_ctor_def checkMatrixIsSquare_def rc selfadjoint_diag
        calculateEigenValuesAndVectors_def ds checkMatrixIsDensityMatrix_def tr
        checkSpaceDimension_def QuantumState_fresh_def)
qed

lemma full_index_first_of_two:
  assumes "length (dimensions s) = 2" "int k < idims s ! 0" "int x < idims s ! 1"
  shows "full_index s 0 x k = k * nat (idims s ! 1) + x"
proof -
  obtain dA dB where ds: "idims s = [dA, dB]"
    using length_2_cases[of "idims s"] assms(1) by (auto simp: idims_def)
  have x: "0 \<le> int x" "int x < dB" and k: "0 \<le> int k" "int k < dA"
    using assms(2,3) ds by simp_all
  have dB: "0 < dB" using x by linarith
  have "digits [dB] (int x) = [int x]"
    using x by (simp add: digits_def)
  then have "undigits [dA, dB] (insert_at 0 (int k) (digits (erase_at 0 [dA, dB]) (int x))) =
      int x + dB * int k"
    by (simp add: erase_at_def insert_at_def undigits_def)
  then have "full_index s 0 x k = nat (int x + dB * int k)"
    by (simp add: full_index_def ds)
  also have "\<dots> = x + nat dB * k"
    using dB by (simp add: nat_add_distrib nat_mult_distrib)
  finally show ?thesis
    by (simp add: ds)
qed

lemma space_2x2_facts:
  "good_space space_2x2" "idims space_2x2 = [2, 2]" "length (dimensions space_2x2) = 2"
  "rank space_2x2 = 2" "totalDimension space_2x2 = 4"
  by (simp_all add: good_space_def wellformed_def product_invariant_def totalDimension_def
      space_2x2_def idims_def)

lemma valid_diagonal_state_2x2:
  assumes "length xs = 4"
  shows "valid_state (diagonal_state xs space_2x2)"
  using assms space_2x2_facts
  by (simp add: valid_state_def diagonal_state_def diagonal_matrix_def)

lemma idims_reduced_2x2: "prod_list (idims (reduced_space space_2x2 t)) = 2" if "t < 2"
proof -
  from that have "t = 0 \<or> t = 1" by auto
  then show ?thesis
    by (auto simp: idims_reduced_space space_2x2_facts erase_at_def)
qed

lemma partialTrace_diagonal_2x2_first:
  assumes "length xs = 4"
  shows "\<exists>res. fst (partialTrace solver (diagonal_state xs space_2x2) 0) =
        QuantumState_ctor solver res (reduced_space space_2x2 0) \<and>
     rows res = 2 \<and> cols res = 2 \<and>
     (\<forall>x<2. \<forall>y<2. coeff res x y =
        (if x = y then complex_of_real (xs ! x + xs ! (2 + x)) else 0))"
proof -
  let ?s = "diagonal_state xs space_2x2"
  have sp: "space ?s = space_2x2" and de: "density ?s = diagonal_matrix xs"
    by (simp_all add: diagonal_state_def)
  have vs: "valid_state ?s"
    using assms by (rule valid_diagonal_state_2x2)
  obtain res where res: "partialTrace_matrix ?s 0 = Inr (reduced_space space_2x2 0, res)"
    "rows res = 2" "cols res = 2"
    "\<forall>x<2. \<forall>y<2. coeff res x y =
        (\<Sum>k<2. coeff (diagonal_matrix xs) (full_index space_2x2 0 x k) (full_index space_2x2 0 y k))"
    using partialTrace_matrix_eq[OF vs, of 0]
    by (auto simp: sp de space_2x2_facts idims_reduced_2x2)
  have fi: "full_index space_2x2 0 x k = k * 2 + x" if "x < 2" "k < 2" for x k
    using that full_index_first_of_two[of space_2x2 k x] by (simp add: space_2x2_facts)
  have "coeff res x y = (if x = y then complex_of_real (xs ! x + xs ! (2 + x)) else 0)"
    if x: "x < 2" and y: "y < 2" for x y
  proof -
    have "coeff res x y =
        (\<Sum>k<2. coeff (diagonal_matrix xs) (full_index space_2x2 0 x k) (full_index space_2x2 0 y k))"
      using res(4) x y by blast
    also have "\<dots> = (\<Sum>k<2. coeff (diagonal_matrix xs) (k * 2 + x) (k * 2 + y))"
      using x y by (intro sum.cong refl) (simp add: fi)
    also have "\<dots> = (if x = y then complex_of_real (xs ! x + xs ! (2 + x)) else 0)"
      using x assms by (simp add: sum_lessThan_2 diagonal_matrix_def)
    finally show ?thesis .
  qed
  moreover have "fst (partialTrace solver ?s 0) = QuantumState_ctor solver res (reduced_space space_2x2 0)"
    using res(1) by (simp add: partialTrace_def sp space_2x2_facts)
  ultimately show ?thesis
    using res(2,3) by blast
qed





text \<open>
  Claim C7, as stated, fails in the direction from the exception to the index.  The
  diagonal matrix with the entries \<open>-9e-16\<close>, 1, \<open>-9e-16\<close> and \<open>18e-16\<close> is a valid
  state on a space of two factors of dimension 2, the index 0 lies inside the rank, and
  \<open>partialTrace(0)\<close> throws \<open>std::invalid_argument\<close>: the partial trace over the first
  factor has the eigenvalue \<open>-18e-16\<close>, which the constructor rejects.
\<close>

theorem partialTrace_raises_in_range:
  "QuantumState_ctor diagonal_solver
     (diagonal_matrix [- (9 / 10 ^ 16), 1, - (9 / 10 ^ 16), 18 / 10 ^ 16]) space_2x2 =
     Inr (diagonal_state [- (9 / 10 ^ 16), 1, - (9 / 10 ^ 16), 18 / 10 ^ 16] space_2x2) \<and>
   0 \<le> sint (0 :: 32 word) \<and>
   sint (0 :: 32 word) <
     rank (space (diagonal_state [- (9 / 10 ^ 16), 1, - (9 / 10 ^ 16), 18 / 10 ^ 16] space_2x2)) \<and>
   fst (partialTrace diagonal_solver
          (diagonal_state [- (9 / 10 ^ 16), 1, - (9 / 10 ^ 16), 18 / 10 ^ 16] space_2x2) 0) =
     Inl InvalidArgument"
proof -
  let ?xs = "[- (9 / 10 ^ 16), 1, - (9 / 10 ^ 16), 18 / 10 ^ 16] :: real list"
  have c: "QuantumState_ctor diagonal_solver (diagonal_matrix ?xs) space_2x2 =
      Inr (diagonal_state ?xs space_2x2)"
    using ctor_accepts_diagonal[of ?xs space_2x2]
    by (simp add: space_2x2_facts diagonal_state_def)
  obtain res where res: "fst (partialTrace diagonal_solver (diagonal_state ?xs space_2x2) 0) =
        QuantumState_ctor diagonal_solver res (reduced_space space_2x2 0)"
     "rows res = 2" "cols res = 2"
     "\<forall>x<2. \<forall>y<2. coeff res x y =
        (if x = y then complex_of_real (?xs ! x + ?xs ! (2 + x)) else 0)"
    using partialTrace_diagonal_2x2_first[of ?xs diagonal_solver] by auto
  have "QuantumState_ctor diagonal_solver res (reduced_space space_2x2 0) = Inl InvalidArgument"
    using res(2,3,4)
    by (intro ctor_rejects_negative_diagonal[where d = "\<lambda>x. ?xs ! x + ?xs ! (2 + x)"])
       simp_all
  then show ?thesis
    using c res(1) by (simp add: diagonal_state_def space_2x2_facts)
qed

text \<open>
  Claim C7, amended.  \<open>partialTrace(index)\<close> throws \<open>std::invalid_argument\<close> when the
  index is negative or not below the rank, and every call leaves the object as it
  was.  For an index inside the rank, on a valid state over a good space of rank at
  least 2, the loops end without an exception, and \<open>partialTrace\<close> returns or throws
  what the constructor returns or throws for the reduced matrix and the reduced
  space.
\<close>

theorem partialTrace_index_check:
  "(sint i < 0 \<or> rank (space s) \<le> sint i \<longrightarrow>
      partialTrace solver s i = (Inl InvalidArgument, s)) \<and>
   snd (partialTrace solver s i) = s \<and>
   (valid_state p \<and> 2 \<le> rank (space p) \<and> 0 \<le> sint j \<and> sint j < rank (space p) \<longrightarrow>
      (\<exists>res. partialTrace_matrix p (nat (sint j)) =
               Inr (reduced_space (space p) (nat (sint j)), res) \<and>
             fst (partialTrace solver p j) =
               QuantumState_ctor solver res (reduced_space (space p) (nat (sint j)))))"
proof (intro conjI impI)
  assume "sint i < 0 \<or> rank (space s) \<le> sint i"
  then show "partialTrace solver s i = (Inl InvalidArgument, s)"
    by (auto simp: partialTrace_def)
next
  show "snd (partialTrace solver s i) = s"
    by (simp add: partialTrace_def split: sum.splits prod.splits)
next
  assume a: "valid_state p \<and> 2 \<le> rank (space p) \<and> 0 \<le> sint j \<and> sint j < rank (space p)"
  let ?t = "nat (sint j)"
  have "wellformed (space p)"
    using a by (simp add: valid_state_def good_space_def)
  then have r: "rank (space p) = int (length (dimensions (space p)))"
    by (simp add: wellformed_def)
  have t: "?t < length (dimensions (space p))" and r2: "2 \<le> length (dimensions (space p))"
    using a r by linarith+
  obtain res where res: "partialTrace_matrix p ?t = Inr (reduced_space (space p) ?t, res)"
    using partialTrace_matrix_eq[of p ?t] a t r2 by blast
  then have "fst (partialTrace solver p j) = QuantumState_ctor solver res (reduced_space (space p) ?t)"
    using a by (simp add: partialTrace_def)
  then show "\<exists>res. partialTrace_matrix p ?t = Inr (reduced_space (space p) ?t, res) \<and>
             fst (partialTrace solver p j) =
               QuantumState_ctor solver res (reduced_space (space p) ?t)"
    using res by blast
qed

theorem partialTrace_index_check_witness:
  "partialTrace diagonal_solver (diagonal_state [1 / 2, 1 / 2, 0, 0] space_2x2) 2 =
     (Inl InvalidArgument, diagonal_state [1 / 2, 1 / 2, 0, 0] space_2x2) \<and>
   snd (partialTrace diagonal_solver (diagonal_state [1 / 2, 1 / 2, 0, 0] space_2x2) 2) =
     diagonal_state [1 / 2, 1 / 2, 0, 0] space_2x2 \<and>
   (\<exists>res. partialTrace_matrix (diagonal_state [1 / 2, 1 / 2, 0, 0] space_2x2) (nat (sint (1 :: 32 word))) =
               Inr (reduced_space space_2x2 (nat (sint (1 :: 32 word))), res) \<and>
          fst (partialTrace diagonal_solver (diagonal_state [1 / 2, 1 / 2, 0, 0] space_2x2) 1) =
               QuantumState_ctor diagonal_solver res
                 (reduced_space space_2x2 (nat (sint (1 :: 32 word)))))"
proof -
  let ?s = "diagonal_state [1 / 2, 1 / 2, 0, 0] space_2x2"
  have sp: "space ?s = space_2x2"
    by (simp add: diagonal_state_def)
  have h1: "sint (2 :: 32 word) < 0 \<or> rank (space ?s) \<le> sint (2 :: 32 word)"
    by (simp add: sp space_2x2_facts)
  have h2: "valid_state ?s \<and> 2 \<le> rank (space ?s) \<and> 0 \<le> sint (1 :: 32 word) \<and>
      sint (1 :: 32 word) < rank (space ?s)"
    using valid_diagonal_state_2x2[of "[1 / 2, 1 / 2, 0, 0]"] by (simp add: sp space_2x2_facts)
  note t = partialTrace_index_check[of 2 ?s diagonal_solver ?s 1]
  show ?thesis
    using t h1 h2 unfolding sp by blast
qed

section \<open>Further properties\<close>

text \<open>
  Every state the constructor builds over a good space is a valid state in the sense
  of the theorems on \<open>partialTrace\<close>.
\<close>

lemma ctor_valid_state:
  assumes "QuantumState_ctor solver m sp = Inr s" "good_space sp"
  shows "valid_state s"
  using assms
  by (auto simp: QuantumState_ctor_def calculateEigenValuesAndVectors_def valid_state_def
      checkSpaceDimension_def checkMatrixIsSquare_def mat_mult_def normalize_m_def transpose_m_def
      split: if_splits option.splits sum.splits prod.splits)

text \<open>
  \<open>tensorWith\<close> called on an object with the object itself as argument: the rank
  has been doubled before the loop reads it, and the loop reads the dimension list
  while it grows.  For the space of one factor of dimension 2 the result has rank 2,
  three dimensions and total dimension 4: the rank is no longer the length of the
  dimension list.
\<close>

theorem tensorWith_self_breaks_rank_invariant:
  "map_sum id (\<lambda>h'. h' 0)
     (tensorWith 0 0 (\<lambda>a. \<lparr>rank = 1, dimensions = [2], totalDim = 2\<rparr>)) =
   Inr \<lparr>rank = 2, dimensions = [2, 2, 2], totalDim = 4\<rparr>"
  by code_simp

text \<open>
  \<open>partialTrace(0)\<close> on a state over a space of rank 1: the reduced space has rank
  0, and \<open>getIndex\<close> of it is called with the empty multi-index, where it reads
  \<open>vec[-1]\<close>.
\<close>

theorem partialTrace_rank_one_out_of_bounds:
  "fst (partialTrace solver
          (diagonal_state [1, 0] \<lparr>rank = 1, dimensions = [2], totalDim = 2\<rparr>) 0) =
   Inl OutOfBounds"
  by (simp add: partialTrace_def partialTrace_matrix_def HilbertSpace_dims_def erase_at_def
      diagonal_state_def totalDimension_def dimension_def int_div_def upt_rec
      partialTrace_body_def getVector_def getIndex_def vecLeftRed_loop_def vecRightIndex_loop_def
      getBasisVector_def Let_def)

lemma outer_product_coeff:
  assumes "cols v = 1"
  shows "coeff (mat_mult (normalize_m v) (transpose_m (normalize_m v))) i j =
     (coeff v i 0 / complex_of_real (sqrt (squaredNorm v))) *
     (coeff v j 0 / complex_of_real (sqrt (squaredNorm v)))"
    and "rows (mat_mult (normalize_m v) (transpose_m (normalize_m v))) = rows v"
    and "cols (mat_mult (normalize_m v) (transpose_m (normalize_m v))) = rows v"
  using assms by (simp_all add: mat_mult_def normalize_m_def transpose_m_def)

text \<open>
  In exact arithmetic (the trace of the program's matrix of doubles can miss the
  bound \<open>1e-15\<close> by rounding), the constructor on a real column vector that is not
  zero, with a matching space and an eigen-solver that succeeds with no eigenvalue
  below \<open>-1e-15\<close>: it returns
  the state whose density matrix is the product of the normalised column and its
  transpose; this matrix has trace 1 and equals its adjoint.
\<close>

theorem real_vector_constructor:
  assumes c1: "cols v = 1"
    and re: "\<forall>i<rows v. Im (coeff v i 0) = 0"
    and nz: "0 < squaredNorm v"
    and sp: "totalDimension sp = int (rows v)"
    and so: "solver (mat_mult (normalize_m v) (transpose_m (normalize_m v))) = Some (vals, vecs)"
    and ev: "\<not> list_ex (\<lambda>x. \<bar>x\<bar> > 1 / 10 ^ 15 \<and> x < 0) vals"
  shows "QuantumState_ctor solver v sp =
     Inr \<lparr>density = mat_mult (normalize_m v) (transpose_m (normalize_m v)), space = sp,
          eigenValues = vals, eigenVectors = vecs\<rparr> \<and>
     trace_m (mat_mult (normalize_m v) (transpose_m (normalize_m v))) = 1 \<and>
     (\<forall>i<rows v. \<forall>j<rows v.
        coeff (mat_mult (normalize_m v) (transpose_m (normalize_m v))) i j =
        cnj (coeff (mat_mult (normalize_m v) (transpose_m (normalize_m v))) j i))"
proof -
  let ?d = "mat_mult (normalize_m v) (transpose_m (normalize_m v))"
  let ?n = "complex_of_real (sqrt (squaredNorm v))"
  note d = outer_product_coeff[OF c1]
  have n2: "?n * ?n = complex_of_real (squaredNorm v)"
  proof -
    have "?n * ?n = complex_of_real (sqrt (squaredNorm v) * sqrt (squaredNorm v))"
      by (simp only: of_real_mult)
    then show ?thesis
      using nz by simp
  qed
  have n0: "?n \<noteq> 0"
    using nz by simp
  have rl: "cnj (coeff v i 0) = coeff v i 0" if "i < rows v" for i
    using re that by (simp add: complex_eq_iff)
  have sym: "coeff ?d i j = cnj (coeff ?d j i)" if "i < rows v" "j < rows v" for i j
    using that by (simp add: d(1) rl mult.commute)
  have "squaredNorm (mat_minus ?d (adjoint ?d)) =
      (\<Sum>i<rows v. \<Sum>j<rows v. (cmod (coeff ?d i j - cnj (coeff ?d j i)))\<^sup>2)"
    by (simp add: squaredNorm_def mat_minus_def adjoint_def d(2,3))
  also have "\<dots> = (\<Sum>i<rows v. \<Sum>j<rows v. 0)"
  proof (intro sum.cong refl)
    fix i j
    assume "i \<in> {..<rows v}" "j \<in> {..<rows v}"
    then have "coeff ?d i j - cnj (coeff ?d j i) = 0"
      using sym[of i j] by (simp only: lessThan_iff) simp
    then show "(cmod (coeff ?d i j - cnj (coeff ?d j i)))\<^sup>2 = 0"
      by (simp only: norm_zero power2_eq_square mult_zero_left)
  qed
  finally have "squaredNorm (mat_minus ?d (adjoint ?d)) = 0"
    by simp
  moreover have "0 \<le> squaredNorm ?d" "0 \<le> squaredNorm (adjoint ?d)"
    by (simp_all add: squaredNorm_def sum_nonneg)
  ultimately have sa: "checkMatrixIsSelfAdjoined ?d"
    by (simp add: checkMatrixIsSelfAdjoined_def isApprox_def)
  have sq: "coeff v i 0 * coeff v i 0 = complex_of_real ((cmod (coeff v i 0))\<^sup>2)"
    if "i < rows v" for i
    using complex_norm_square[of "coeff v i 0"] rl[OF that] by simp
  have sn: "squaredNorm v = (\<Sum>i<rows v. (cmod (coeff v i 0))\<^sup>2)"
    using c1 by (simp add: squaredNorm_def)
  have "trace_m ?d = (\<Sum>i<rows v. coeff v i 0 * coeff v i 0 / (?n * ?n))"
    by (simp add: trace_m_def d)
  also have "\<dots> = (\<Sum>i<rows v. complex_of_real ((cmod (coeff v i 0))\<^sup>2) / (?n * ?n))"
    by (intro sum.cong refl) (simp only: sq lessThan_iff)
  also have "\<dots> = complex_of_real (\<Sum>i<rows v. (cmod (coeff v i 0))\<^sup>2) / (?n * ?n)"
    by (simp only: of_real_sum sum_divide_distrib)
  also have "\<dots> = 1"
    using nz by (simp only: n2 sn[symmetric]) simp
  finally have tr: "trace_m ?d = 1" .
  have "QuantumState_ctor solver v sp =
     Inr \<lparr>density = ?d, space = sp, eigenValues = vals, eigenVectors = vecs\<rparr>"
    using c1 sa so ev sp
    by (simp add: QuantumState_ctor_def calculateEigenValuesAndVectors_def
        checkMatrixIsDensityMatrix_def tr checkSpaceDimension_def d(2) QuantumState_fresh_def)
  then show ?thesis
    using tr sym by (intro conjI allI impI)
qed

end
